theory Spec2Isabelle
  imports Main "HOL-Library.Monad_Syntax"
begin

section \<open>The node store\<close>

text \<open>
  The set of \<^verbatim>\<open>persistent_set.h\<close> is a binary search tree of heap nodes held by
  \<^verbatim>\<open>std::shared_ptr\<close>. Several versions share nodes, \<^verbatim>\<open>erase_impl\<close> compares nodes by
  address and cursors are raw pointers, so the nodes live in an explicit store: a list of
  cells, the address of a cell being its index. A pointer is \<open>None\<close> (\<^verbatim>\<open>nullptr\<close>) or
  \<open>Some a\<close>.

  A cell has the two child pointers of \<^verbatim>\<open>bNode\<close>; \<open>val\<close> is \<open>Some v\<close> for a
  \<^verbatim>\<open>node\<close> (the derived struct that carries the value) and \<open>None\<close> for a plain
  \<^verbatim>\<open>bNode\<close>, the anchor.

  \<^verbatim>\<open>std::make_shared\<close> appends a cell. Releasing the last reference to a node is not
  modelled: the store only grows, so it holds every node a live handle can reach, and
  perhaps more. Every function that dereferences a pointer returns an option: \<open>None\<close>
  stands for a call without a defined outcome (a null or invalid pointer is dereferenced,
  the value of the anchor is read, or a loop runs forever).
\<close>

type_synonym addr = nat

type_synonym ptr = "addr option"

record 'a bNode =
  left :: ptr
  right :: ptr
  val :: "'a option"

type_synonym 'a store = "'a bNode list"

definition deref :: "'a store \<Rightarrow> addr \<Rightarrow> 'a bNode option" where
  "deref h a = (if a < length h then Some (h ! a) else None)"

definition make_shared :: "'a store \<Rightarrow> 'a bNode \<Rightarrow> 'a store \<times> addr" where
  "make_shared h n = (h @ [n], length h)"

text \<open>\<^verbatim>\<open>bNode::bNode()\<close>: no children, no value.\<close>

definition new_bNode :: "'a bNode" where
  "new_bNode = \<lparr>left = None, right = None, val = None\<rparr>"

text \<open>The assignment \<^verbatim>\<open>tmp_tree->left = p\<close>.\<close>

definition set_left :: "'a store \<Rightarrow> addr \<Rightarrow> ptr \<Rightarrow> 'a store option" where
  "set_left h a p = (if a < length h then Some (h[a := (h ! a)\<lparr>left := p\<rparr>]) else None)"

text \<open>\<^verbatim>\<open>bNode::get_value\<close>: the cast to \<^verbatim>\<open>node\<close> is defined on value-bearing cells only.\<close>

definition get_value :: "'a store \<Rightarrow> addr \<Rightarrow> 'a option" where
  "get_value h a = (case deref h a of None \<Rightarrow> None | Some n \<Rightarrow> val n)"

section \<open>Handles and cursors\<close>

text \<open>
  \<^verbatim>\<open>persistent_set\<close> has the fields \<^verbatim>\<open>tree\<close> (the anchor) and \<^verbatim>\<open>_size\<close>. The counter is
  a \<^verbatim>\<open>size_t\<close>; it counts cells of the store, each of which occupies memory of its own, so
  it stays far below the wrap-around of \<^verbatim>\<open>size_t\<close> and is a natural number here.
  An \<^verbatim>\<open>iterator\<close> has the raw pointers \<^verbatim>\<open>_node\<close> and \<^verbatim>\<open>root\<close>.
\<close>

record persistent_set =
  tree :: ptr
  set_size :: nat

record iterator =
  it_node :: ptr
  it_root :: ptr

text \<open>\<^verbatim>\<open>operator==\<close> on iterators compares \<^verbatim>\<open>_node\<close> only.\<close>

definition it_eq :: "iterator \<Rightarrow> iterator \<Rightarrow> bool" where
  "it_eq a b = (it_node a = it_node b)"

definition new_set :: persistent_set where
  "new_set = \<lparr>tree = None, set_size = 0\<rparr>"

definition copy_set :: "persistent_set \<Rightarrow> persistent_set" where
  "copy_set other = \<lparr>tree = tree other, set_size = set_size other\<rparr>"

definition empty :: "persistent_set \<Rightarrow> bool" where
  "empty s = (set_size s = 0)"

definition clear :: "persistent_set \<Rightarrow> persistent_set" where
  "clear s = \<lparr>tree = None, set_size = 0\<rparr>"

definition swap_sets :: "persistent_set \<Rightarrow> persistent_set \<Rightarrow> persistent_set \<times> persistent_set" where
  "swap_sets s other =
     (\<lparr>tree = tree other, set_size = set_size other\<rparr>, \<lparr>tree = tree s, set_size = set_size s\<rparr>)"

definition end_it :: "persistent_set \<Rightarrow> iterator" where
  "end_it s = \<lparr>it_node = tree s, it_root = tree s\<rparr>"

section \<open>Extreme nodes and the search\<close>

partial_function (option) min_node :: "'a store \<Rightarrow> addr \<Rightarrow> addr option" where
  "min_node h cur =
     (case deref h cur of
        None \<Rightarrow> None
      | Some n \<Rightarrow> (case left n of None \<Rightarrow> Some cur | Some l \<Rightarrow> min_node h l))"

partial_function (option) max_node :: "'a store \<Rightarrow> addr \<Rightarrow> addr option" where
  "max_node h cur =
     (case deref h cur of
        None \<Rightarrow> None
      | Some n \<Rightarrow> (case right n of None \<Rightarrow> Some cur | Some r \<Rightarrow> max_node h r))"

text \<open>\<^verbatim>\<open>begin\<close>: the minimum is searched from the anchor itself, through its left child.\<close>

definition begin_it :: "'a store \<Rightarrow> persistent_set \<Rightarrow> iterator option" where
  "begin_it h s =
     (case tree s of
        None \<Rightarrow> Some (end_it s)
      | Some t \<Rightarrow>
          (case deref h t of
             None \<Rightarrow> None
           | Some a \<Rightarrow>
               if left a = None then Some (end_it s)
               else (case min_node h t of
                       None \<Rightarrow> None
                     | Some m \<Rightarrow> Some \<lparr>it_node = Some m, it_root = tree s\<rparr>)))"

text \<open>The loop of \<^verbatim>\<open>find\<close>, from the pointer \<open>cur\<close>; \<open>s\<close> is the handle searched.\<close>

partial_function (option) find_loop ::
  "('a::linorder) store \<Rightarrow> persistent_set \<Rightarrow> ptr \<Rightarrow> 'a \<Rightarrow> iterator option" where
  "find_loop h s cur x =
     (case cur of
        None \<Rightarrow> Some (end_it s)
      | Some c \<Rightarrow>
          (case get_value h c of
             None \<Rightarrow> None
           | Some v \<Rightarrow>
               if v > x then
                 (case deref h c of None \<Rightarrow> None | Some n \<Rightarrow> find_loop h s (left n) x)
               else if v < x then
                 (case deref h c of None \<Rightarrow> None | Some n \<Rightarrow> find_loop h s (right n) x)
               else Some \<lparr>it_node = Some c, it_root = tree s\<rparr>))"

definition find_value :: "('a::linorder) store \<Rightarrow> persistent_set \<Rightarrow> 'a \<Rightarrow> iterator option" where
  "find_value h s x =
     (case tree s of
        None \<Rightarrow> Some (end_it s)
      | Some t \<Rightarrow>
          (case deref h t of
             None \<Rightarrow> None
           | Some a \<Rightarrow> find_loop h s (left a) x))"

section \<open>Stepping a cursor\<close>

text \<open>
  \<^verbatim>\<open>bNode::next\<close> and \<^verbatim>\<open>bNode::prev\<close>. \<open>this\<close> is the node stepped from, \<open>root\<close> the
  anchor the cursor carries. The loops read \<^verbatim>\<open>cur->get_value()\<close> without a null test.
\<close>

partial_function (option) next_loop ::
  "('a::linorder) store \<Rightarrow> addr \<Rightarrow> ptr \<Rightarrow> addr \<Rightarrow> addr option" where
  "next_loop h this cur result =
     (case cur of
        None \<Rightarrow> None
      | Some c \<Rightarrow>
          (case get_value h c of
             None \<Rightarrow> None
           | Some cv \<Rightarrow>
               (case get_value h this of
                  None \<Rightarrow> None
                | Some tv \<Rightarrow>
                    if cv < tv then
                      (case deref h c of None \<Rightarrow> None | Some n \<Rightarrow> next_loop h this (right n) result)
                    else if cv > tv then
                      (case deref h c of None \<Rightarrow> None | Some n \<Rightarrow> next_loop h this (left n) c)
                    else Some result)))"

definition next_node :: "('a::linorder) store \<Rightarrow> addr \<Rightarrow> ptr \<Rightarrow> addr option" where
  "next_node h this root =
     (case deref h this of
        None \<Rightarrow> None
      | Some n \<Rightarrow>
          (case right n of
             Some r \<Rightarrow> min_node h r
           | None \<Rightarrow>
               (case root of
                  None \<Rightarrow> None
                | Some rt \<Rightarrow>
                    (case deref h rt of
                       None \<Rightarrow> None
                     | Some a \<Rightarrow> next_loop h this (left a) rt))))"

partial_function (option) prev_loop ::
  "('a::linorder) store \<Rightarrow> addr \<Rightarrow> ptr \<Rightarrow> addr \<Rightarrow> addr option" where
  "prev_loop h this cur result =
     (case cur of
        None \<Rightarrow> None
      | Some c \<Rightarrow>
          (case get_value h c of
             None \<Rightarrow> None
           | Some cv \<Rightarrow>
               (case get_value h this of
                  None \<Rightarrow> None
                | Some tv \<Rightarrow>
                    if cv < tv then
                      (case deref h c of None \<Rightarrow> None | Some n \<Rightarrow> prev_loop h this (right n) c)
                    else if cv > tv then
                      (case deref h c of None \<Rightarrow> None | Some n \<Rightarrow> prev_loop h this (left n) result)
                    else Some result)))"

definition prev_node :: "('a::linorder) store \<Rightarrow> addr \<Rightarrow> ptr \<Rightarrow> addr option" where
  "prev_node h this root =
     (case deref h this of
        None \<Rightarrow> None
      | Some n \<Rightarrow>
          (case left n of
             Some l \<Rightarrow> max_node h l
           | None \<Rightarrow>
               (case root of
                  None \<Rightarrow> None
                | Some rt \<Rightarrow>
                    (case deref h rt of
                       None \<Rightarrow> None
                     | Some a \<Rightarrow> prev_loop h this (left a) rt))))"

text \<open>\<^verbatim>\<open>operator++\<close>, \<^verbatim>\<open>operator--\<close> and \<^verbatim>\<open>operator*\<close> of the iterator.\<close>

definition incr :: "('a::linorder) store \<Rightarrow> iterator \<Rightarrow> iterator option" where
  "incr h it =
     (case it_node it of
        None \<Rightarrow> None
      | Some a \<Rightarrow>
          (case next_node h a (it_root it) of
             None \<Rightarrow> None
           | Some b \<Rightarrow> Some (it\<lparr>it_node := Some b\<rparr>)))"

definition decr :: "('a::linorder) store \<Rightarrow> iterator \<Rightarrow> iterator option" where
  "decr h it =
     (case it_node it of
        None \<Rightarrow> None
      | Some a \<Rightarrow>
          (case prev_node h a (it_root it) of
             None \<Rightarrow> None
           | Some b \<Rightarrow> Some (it\<lparr>it_node := Some b\<rparr>)))"

definition star :: "'a store \<Rightarrow> iterator \<Rightarrow> 'a option" where
  "star h it = (case it_node it of None \<Rightarrow> None | Some a \<Rightarrow> get_value h a)"

text \<open>
  The traversal of a handle is the loop a caller writes with these operators:
  \<^verbatim>\<open>for (it = s.begin(); it != s.end(); ++it) out.push_back(*it);\<close>
\<close>

partial_function (option) collect ::
  "('a::linorder) store \<Rightarrow> iterator \<Rightarrow> iterator \<Rightarrow> 'a list option" where
  "collect h it e =
     (if it_eq it e then Some []
      else
        (case star h it of
           None \<Rightarrow> None
         | Some v \<Rightarrow>
             (case incr h it of
                None \<Rightarrow> None
              | Some it' \<Rightarrow> Option.bind (collect h it' e) (\<lambda>vs. Some (v # vs)))))"

definition traversal :: "('a::linorder) store \<Rightarrow> persistent_set \<Rightarrow> 'a list option" where
  "traversal h s =
     (case begin_it h s of None \<Rightarrow> None | Some b \<Rightarrow> collect h b (end_it s))"

section \<open>Insertion and removal\<close>

text \<open>\<^verbatim>\<open>tree_\<close> (here \<open>tree_init\<close>): a handle without an anchor gets one.\<close>

definition tree_init :: "'a store \<Rightarrow> persistent_set \<Rightarrow> 'a store \<times> persistent_set" where
  "tree_init h s =
     (case tree s of
        None \<Rightarrow> (let (h', a) = make_shared h new_bNode in (h', s\<lparr>tree := Some a\<rparr>))
      | Some _ \<Rightarrow> (h, s))"

text \<open>
  \<^verbatim>\<open>insert_impl\<close> returns the new subtree and, through its reference parameter
  \<^verbatim>\<open>result\<close>, the new leaf; here it returns the store, the subtree and the leaf. The
  recursive call is an argument of \<^verbatim>\<open>make_shared\<close>, so the child is built before the
  copy of the parent is allocated.
\<close>

partial_function (option) insert_impl ::
  "('a::linorder) store \<Rightarrow> ptr \<Rightarrow> 'a \<Rightarrow> ('a store \<times> ptr \<times> ptr) option" where
  "insert_impl h pos x =
     (case pos of
        None \<Rightarrow>
          (let (h', a) = make_shared h \<lparr>left = None, right = None, val = Some x\<rparr>
           in Some (h', Some a, Some a))
      | Some p \<Rightarrow>
          (case get_value h p of
             None \<Rightarrow> None
           | Some v \<Rightarrow>
               (case deref h p of
                  None \<Rightarrow> None
                | Some n \<Rightarrow>
                    if v < x then
                      Option.bind (insert_impl h (right n) x) (\<lambda>(h', q, result).
                        let (h'', a) = make_shared h' \<lparr>left = left n, right = q, val = Some v\<rparr>
                        in Some (h'', Some a, result))
                    else
                      Option.bind (insert_impl h (left n) x) (\<lambda>(h', q, result).
                        let (h'', a) = make_shared h' \<lparr>left = q, right = right n, val = Some v\<rparr>
                        in Some (h'', Some a, result)))))"

definition insert_value ::
  "('a::linorder) store \<Rightarrow> persistent_set \<Rightarrow> 'a \<Rightarrow>
     ('a store \<times> persistent_set \<times> iterator \<times> bool) option" where
  "insert_value h s x =
     (let (h1, s1) = tree_init h s in
      case find_value h1 s1 x of
        None \<Rightarrow> None
      | Some res \<Rightarrow>
          if \<not> it_eq res (end_it s1) then Some (h1, s1, res, False)
          else
            (let (h2, tmp_tree) = make_shared h1 new_bNode in
             case tree s1 of
               None \<Rightarrow> None
             | Some t \<Rightarrow>
                 (case deref h2 t of
                    None \<Rightarrow> None
                  | Some a \<Rightarrow>
                      (case insert_impl h2 (left a) x of
                         None \<Rightarrow> None
                       | Some (h3, q, result) \<Rightarrow>
                           (case set_left h3 tmp_tree q of
                              None \<Rightarrow> None
                            | Some h4 \<Rightarrow>
                                Some (h4,
                                      \<lparr>tree = Some tmp_tree, set_size = set_size s1 + 1\<rparr>,
                                      \<lparr>it_node = result, it_root = Some tmp_tree\<rparr>,
                                      True))))))"

text \<open>
  \<^verbatim>\<open>erase_impl(pos, pos2)\<close> compares the two pointers, then the two values. The cells it
  reads are not changed by the recursive call, which only allocates, so they are read
  before it.
\<close>

partial_function (option) erase_impl ::
  "('a::linorder) store \<Rightarrow> ptr \<Rightarrow> ptr \<Rightarrow> ('a store \<times> ptr) option" where
  "erase_impl h pos pos2 =
     (if pos = pos2 then
        (case pos2 of
           None \<Rightarrow> None
         | Some p2 \<Rightarrow>
             (case deref h p2 of
                None \<Rightarrow> None
              | Some n2 \<Rightarrow>
                  if right n2 = None then Some (h, left n2)
                  else if left n2 = None then Some (h, right n2)
                  else
                    (case right n2 of
                       None \<Rightarrow> None
                     | Some r \<Rightarrow>
                         (case min_node h r of
                            None \<Rightarrow> None
                          | Some minimum \<Rightarrow>
                              (case get_value h minimum of
                                 None \<Rightarrow> None
                               | Some mv \<Rightarrow>
                                   Option.bind (erase_impl h (right n2) (Some minimum)) (\<lambda>(h', q).
                                     let (h'', a) =
                                       make_shared h' \<lparr>left = left n2, right = q, val = Some mv\<rparr>
                                     in Some (h'', Some a)))))))
      else
        (case pos of
           None \<Rightarrow> None
         | Some p \<Rightarrow>
             (case get_value h p of
                None \<Rightarrow> None
              | Some pv \<Rightarrow>
                  (case pos2 of
                     None \<Rightarrow> None
                   | Some p2 \<Rightarrow>
                       (case get_value h p2 of
                          None \<Rightarrow> None
                        | Some pv2 \<Rightarrow>
                            (case deref h p of
                               None \<Rightarrow> None
                             | Some n \<Rightarrow>
                                 if pv < pv2 then
                                   Option.bind (erase_impl h (right n) pos2) (\<lambda>(h', q).
                                     let (h'', a) =
                                       make_shared h' \<lparr>left = left n, right = q, val = Some pv\<rparr>
                                     in Some (h'', Some a))
                                 else
                                   Option.bind (erase_impl h (left n) pos2) (\<lambda>(h', q).
                                     let (h'', a) =
                                       make_shared h' \<lparr>left = q, right = right n, val = Some pv\<rparr>
                                     in Some (h'', Some a))))))))"

text \<open>
  \<^verbatim>\<open>erase\<close>. The decrement \<^verbatim>\<open>_size--\<close> is reached only when the anchor has a left
  child; on a natural number it stops at 0, where \<^verbatim>\<open>size_t\<close> would wrap.
\<close>

definition erase ::
  "('a::linorder) store \<Rightarrow> persistent_set \<Rightarrow> iterator \<Rightarrow> ('a store \<times> persistent_set) option" where
  "erase h s it =
     (case tree s of
        None \<Rightarrow> Some (h, s)
      | Some t \<Rightarrow>
          (case deref h t of
             None \<Rightarrow> None
           | Some a \<Rightarrow>
               if left a = None then Some (h, s)
               else
                 (let (h1, tmp_tree) = make_shared h new_bNode in
                  case erase_impl h1 (left a) (it_node it) of
                    None \<Rightarrow> None
                  | Some (h2, q) \<Rightarrow>
                      (case set_left h2 tmp_tree q of
                         None \<Rightarrow> None
                       | Some h3 \<Rightarrow>
                           Some (h3, \<lparr>tree = Some tmp_tree, set_size = set_size s - 1\<rparr>)))))"

text \<open>The recursion equations are the code equations of the loops.\<close>

declare min_node.simps [code]
  max_node.simps [code]
  find_loop.simps [code]
  next_loop.simps [code]
  prev_loop.simps [code]
  collect.simps [code]
  insert_impl.simps [code]
  erase_impl.simps [code]

section \<open>The tree a pointer stands for\<close>

text \<open>
  A shape is a finite binary tree that records the address of every node. \<open>rep h p t\<close>
  says that the cells reachable from \<open>p\<close> in the store \<open>h\<close> form exactly the tree \<open>t\<close>;
  \<open>version h s t\<close> says that the handle \<open>s\<close> holds the elements of \<open>t\<close>: it has no
  anchor and \<open>t\<close> is empty, or its anchor is a valueless cell without a right child
  whose left child is the root of \<open>t\<close>.
\<close>

datatype 'a shape = Tip | Nd addr "'a shape" 'a "'a shape"

fun rep :: "'a store \<Rightarrow> ptr \<Rightarrow> 'a shape \<Rightarrow> bool" where
  "rep h p Tip = (p = None)"
| "rep h p (Nd a l v r) =
     (p = Some a \<and>
      (case deref h a of
         None \<Rightarrow> False
       | Some n \<Rightarrow> val n = Some v \<and> rep h (left n) l \<and> rep h (right n) r))"

definition version :: "'a store \<Rightarrow> persistent_set \<Rightarrow> 'a shape \<Rightarrow> bool" where
  "version h s t =
     (case tree s of
        None \<Rightarrow> t = Tip
      | Some a \<Rightarrow>
          (case deref h a of
             None \<Rightarrow> False
           | Some n \<Rightarrow> val n = None \<and> right n = None \<and> rep h (left n) t))"

fun nodes :: "'a shape \<Rightarrow> (addr \<times> 'a) list" where
  "nodes Tip = []"
| "nodes (Nd a l v r) = nodes l @ (a, v) # nodes r"

definition inorder :: "'a shape \<Rightarrow> 'a list" where
  "inorder t = map snd (nodes t)"

definition addrs :: "'a shape \<Rightarrow> addr list" where
  "addrs t = map fst (nodes t)"

text \<open>The ordering invariant of the spec, node by node.\<close>

fun bst :: "('a::linorder) shape \<Rightarrow> bool" where
  "bst Tip = True"
| "bst (Nd a l v r) =
     ((\<forall>x \<in> set (inorder l). x < v) \<and> (\<forall>x \<in> set (inorder r). v < x) \<and> bst l \<and> bst r)"

text \<open>
  \<open>store_le h h'\<close>: the store \<open>h'\<close> has every cell of \<open>h\<close>, unchanged, and perhaps
  more cells after them.
\<close>

definition store_le :: "'a store \<Rightarrow> 'a store \<Rightarrow> bool" where
  "store_le h h' = (length h \<le> length h' \<and> take (length h) h' = h)"

fun subtrees :: "'a shape \<Rightarrow> 'a shape list" where
  "subtrees Tip = []"
| "subtrees (Nd a l v r) = Nd a l v r # subtrees l @ subtrees r"

fun height :: "'a shape \<Rightarrow> nat" where
  "height Tip = 0"
| "height (Nd a l v r) = Suc (max (height l) (height r))"

section \<open>A concrete store\<close>

text \<open>
  The store after \<^verbatim>\<open>insert(5); insert(3); insert(8)\<close> on a new set, as the functions above
  compute it: every insertion leaves the old anchor and the old path behind. The handle
  \<open>set3\<close> is the set after the three insertions and \<open>shape3\<close> its tree.
\<close>

definition store3 :: "nat store" where
  "store3 =
     [\<lparr>left = None, right = None, val = None\<rparr>,
      \<lparr>left = Some 2, right = None, val = None\<rparr>,
      \<lparr>left = None, right = None, val = Some 5\<rparr>,
      \<lparr>left = Some 5, right = None, val = None\<rparr>,
      \<lparr>left = None, right = None, val = Some 3\<rparr>,
      \<lparr>left = Some 4, right = None, val = Some 5\<rparr>,
      \<lparr>left = Some 8, right = None, val = None\<rparr>,
      \<lparr>left = None, right = None, val = Some 8\<rparr>,
      \<lparr>left = Some 4, right = Some 7, val = Some 5\<rparr>]"

definition set3 :: persistent_set where
  "set3 = \<lparr>tree = Some 6, set_size = 3\<rparr>"

definition shape3 :: "nat shape" where
  "shape3 = Nd 8 (Nd 4 Tip 3 Tip) 5 (Nd 7 Tip 8 Tip)"

section \<open>The loops as recursion on the tree\<close>

text \<open>
  The three descents, written as structural recursion on the tree that the pointer
  \<open>cur\<close> stands for. \<open>next_shape\<close> and \<open>prev_shape\<close> return \<open>None\<close> where the loops of
  \<^verbatim>\<open>next\<close> and \<^verbatim>\<open>prev\<close> read the value of a null pointer.
\<close>

fun find_shape :: "persistent_set \<Rightarrow> ('a::linorder) shape \<Rightarrow> 'a \<Rightarrow> iterator" where
  "find_shape s Tip x = end_it s"
| "find_shape s (Nd a l v r) x =
     (if v > x then find_shape s l x
      else if v < x then find_shape s r x
      else \<lparr>it_node = Some a, it_root = tree s\<rparr>)"

fun next_shape :: "('a::linorder) \<Rightarrow> 'a shape \<Rightarrow> addr \<Rightarrow> addr option" where
  "next_shape tv Tip result = None"
| "next_shape tv (Nd c l cv r) result =
     (if cv < tv then next_shape tv r result
      else if cv > tv then next_shape tv l c
      else Some result)"

fun prev_shape :: "('a::linorder) \<Rightarrow> 'a shape \<Rightarrow> addr \<Rightarrow> addr option" where
  "prev_shape tv Tip result = None"
| "prev_shape tv (Nd c l cv r) result =
     (if cv < tv then prev_shape tv r c
      else if cv > tv then prev_shape tv l result
      else Some result)"

text \<open>The nodes of a tree with a value above, or below, a given one, in ascending order.\<close>

definition nodes_above :: "('a::linorder) \<Rightarrow> 'a shape \<Rightarrow> (addr \<times> 'a) list" where
  "nodes_above v t = filter (\<lambda>bw. v < snd bw) (nodes t)"

definition nodes_below :: "('a::linorder) \<Rightarrow> 'a shape \<Rightarrow> (addr \<times> 'a) list" where
  "nodes_below v t = filter (\<lambda>bw. snd bw < v) (nodes t)"

text \<open>
  The successor search as the spec words it: descend from the real root; while the
  current value is less than the value of the node stepped from, move right; while it
  is greater, record the current node as the best candidate and move left; stop at the
  node itself. \<open>candidates_next\<close> lists the recorded candidates in the order they are
  recorded, \<open>candidates_prev\<close> those of the symmetric predecessor search.
\<close>

fun candidates_next :: "('a::linorder) \<Rightarrow> 'a shape \<Rightarrow> addr list" where
  "candidates_next v Tip = []"
| "candidates_next v (Nd c l w r) =
     (if w < v then candidates_next v r
      else if v < w then c # candidates_next v l
      else [])"

fun candidates_prev :: "('a::linorder) \<Rightarrow> 'a shape \<Rightarrow> addr list" where
  "candidates_prev v Tip = []"
| "candidates_prev v (Nd c l w r) =
     (if v < w then candidates_prev v l
      else if w < v then c # candidates_prev v r
      else [])"

section \<open>What insertion and removal do to a tree\<close>

text \<open>
  \<open>ins_path x t\<close> lists the nodes \<^verbatim>\<open>insert_impl\<close> visits in \<open>t\<close> on its way down for \<open>x\<close>:
  right when the node's value is less than \<open>x\<close>, left otherwise. In the tree after the
  insertion of \<open>x\<close> it is the path from the root to the new leaf.

  \<open>path_copy n x t t'\<close>: \<open>t'\<close> is \<open>t\<close> with the nodes of that path replaced by nodes at
  addresses from \<open>n\<close> on, the subtrees off the path being the subtrees of \<open>t\<close> themselves
  (same addresses), and with a leaf for \<open>x\<close> where the path leaves \<open>t\<close>.
\<close>

fun ins_path :: "('a::linorder) \<Rightarrow> 'a shape \<Rightarrow> addr list" where
  "ins_path x Tip = []"
| "ins_path x (Nd a l v r) = a # (if v < x then ins_path x r else ins_path x l)"

fun path_copy :: "addr \<Rightarrow> ('a::linorder) \<Rightarrow> 'a shape \<Rightarrow> 'a shape \<Rightarrow> bool" where
  "path_copy n x Tip t' =
     (case t' of Tip \<Rightarrow> False | Nd b l' w r' \<Rightarrow> n \<le> b \<and> w = x \<and> l' = Tip \<and> r' = Tip)"
| "path_copy n x (Nd a l v r) t' =
     (case t' of
        Tip \<Rightarrow> False
      | Nd b l' w r' \<Rightarrow>
          n \<le> b \<and> w = v \<and>
          (if v < x then l' = l \<and> path_copy n x r r' else r' = r \<and> path_copy n x l l'))"

text \<open>
  \<open>erased n (a, v) t t'\<close>: \<open>t'\<close> is \<open>t\<close> after \<^verbatim>\<open>erase_impl\<close> removed the node at address \<open>a\<close>,
  which holds \<open>v\<close>. The nodes above it are replaced by nodes at addresses from \<open>n\<close> on;
  the node itself is replaced by its left subtree when it has no right subtree, by
  its right subtree when it has no left one, and otherwise by a new node that holds
  the first value of the right subtree, over the same left subtree and the right
  subtree with its first node erased in the same way.
\<close>

fun erased :: "addr \<Rightarrow> addr \<times> ('a::linorder) \<Rightarrow> 'a shape \<Rightarrow> 'a shape \<Rightarrow> bool" where
  "erased n av Tip t' = False"
| "erased n av (Nd c l w r) t' =
     (if c = fst av then
        (if r = Tip then t' = l
         else if l = Tip then t' = r
         else
           (case t' of
              Tip \<Rightarrow> False
            | Nd b l' w' r' \<Rightarrow>
                n \<le> b \<and> l' = l \<and> w' = snd (hd (nodes r)) \<and> erased n (hd (nodes r)) r r'))
      else
        (case t' of
           Tip \<Rightarrow> False
         | Nd b l' w' r' \<Rightarrow>
             n \<le> b \<and> w' = w \<and>
             (if w < snd av then l' = l \<and> erased n av r r' else r' = r \<and> erased n av l l')))"

section \<open>Programs over several handles\<close>

text \<open>
  A caller holds several sets and applies the public operations to them. A state is
  the store with the list of the caller's handles; an operation names its handles by
  their index. \<open>Construct\<close> is the default constructor and \<open>Copy\<close> the copy constructor;
  both add a handle. The cursor that \<^verbatim>\<open>erase\<close> takes is computed on the handle it is
  applied to, by \<^verbatim>\<open>find\<close>, \<^verbatim>\<open>begin\<close>, \<^verbatim>\<open>end\<close> and the two stepping operators. A program
  has no outcome (\<open>None\<close>) when an index is out of range or when one of its calls has
  none.
\<close>

datatype 'a cursor_expr =
  Find 'a | Begin | End | Next "'a cursor_expr" | Prev "'a cursor_expr"

fun cursor :: "('a::linorder) store \<Rightarrow> persistent_set \<Rightarrow> 'a cursor_expr \<Rightarrow> iterator option" where
  "cursor h s (Find x) = find_value h s x"
| "cursor h s Begin = begin_it h s"
| "cursor h s End = Some (end_it s)"
| "cursor h s (Next e) = (case cursor h s e of None \<Rightarrow> None | Some it \<Rightarrow> incr h it)"
| "cursor h s (Prev e) = (case cursor h s e of None \<Rightarrow> None | Some it \<Rightarrow> decr h it)"

datatype 'a operation =
  Construct | Copy nat | Insert nat 'a | Erase nat "'a cursor_expr" | Clear nat | Swap nat nat

type_synonym 'a state = "'a store \<times> persistent_set list"

fun exec :: "('a::linorder) operation \<Rightarrow> 'a state \<Rightarrow> 'a state option" where
  "exec Construct (h, ss) = Some (h, ss @ [new_set])"
| "exec (Copy i) (h, ss) =
     (if i < length ss then Some (h, ss @ [copy_set (ss ! i)]) else None)"
| "exec (Insert i x) (h, ss) =
     (if i < length ss then
        (case insert_value h (ss ! i) x of
           None \<Rightarrow> None
         | Some (h', s', res) \<Rightarrow> Some (h', ss[i := s']))
      else None)"
| "exec (Erase i e) (h, ss) =
     (if i < length ss then
        (case cursor h (ss ! i) e of
           None \<Rightarrow> None
         | Some it \<Rightarrow>
             (case erase h (ss ! i) it of
                None \<Rightarrow> None
              | Some (h', s') \<Rightarrow> Some (h', ss[i := s'])))
      else None)"
| "exec (Clear i) (h, ss) =
     (if i < length ss then Some (h, ss[i := clear (ss ! i)]) else None)"
| "exec (Swap i j) (h, ss) =
     (if i < length ss \<and> j < length ss then
        (let (a, b) = swap_sets (ss ! i) (ss ! j) in Some (h, ss[i := a, j := b]))
      else None)"

fun run :: "('a::linorder) operation list \<Rightarrow> 'a state \<Rightarrow> 'a state option" where
  "run [] st = Some st"
| "run (c # cs) st = (case exec c st of None \<Rightarrow> None | Some st' \<Rightarrow> run cs st')"

text \<open>
  A handle is consistent in a store when its cells form a search tree and its counter
  is the number of elements.
\<close>

definition consistent :: "('a::linorder) store \<Rightarrow> persistent_set \<Rightarrow> 'a shape \<Rightarrow> bool" where
  "consistent h s t = (version h s t \<and> bst t \<and> set_size s = length (inorder t))"

text \<open>A state is consistent when each of its handles is, for some tree.\<close>

definition all_consistent :: "('a::linorder) state \<Rightarrow> bool" where
  "all_consistent st = (\<forall>s \<in> set (snd st). \<exists>t. consistent (fst st) s t)"

text \<open>A program on two handles, for the examples below.\<close>

definition program1 :: "nat operation list" where
  "program1 = [Construct, Insert 0 5, Insert 0 3, Copy 0, Erase 0 (Find 5), Insert 1 8]"

definition store_p1 :: "nat store" where
  "store_p1 =
     [\<lparr>left = None, right = None, val = None\<rparr>,
      \<lparr>left = Some 2, right = None, val = None\<rparr>,
      \<lparr>left = None, right = None, val = Some 5\<rparr>,
      \<lparr>left = Some 5, right = None, val = None\<rparr>,
      \<lparr>left = None, right = None, val = Some 3\<rparr>,
      \<lparr>left = Some 4, right = None, val = Some 5\<rparr>,
      \<lparr>left = Some 4, right = None, val = None\<rparr>,
      \<lparr>left = Some 9, right = None, val = None\<rparr>,
      \<lparr>left = None, right = None, val = Some 8\<rparr>,
      \<lparr>left = Some 4, right = Some 8, val = Some 5\<rparr>]"

section \<open>Basic facts\<close>

lemma inorder_simps [simp]:
  "inorder Tip = []"
  "inorder (Nd a l v r) = inorder l @ v # inorder r"
  by (simp_all add: inorder_def)

lemma addrs_simps [simp]:
  "addrs Tip = []"
  "addrs (Nd a l v r) = addrs l @ a # addrs r"
  by (simp_all add: addrs_def)

lemma nodes_inorder: "(a, v) \<in> set (nodes t) \<Longrightarrow> v \<in> set (inorder t)"
  by (force simp: inorder_def)

lemma nodes_addrs: "(a, v) \<in> set (nodes t) \<Longrightarrow> a \<in> set (addrs t)"
  by (force simp: addrs_def)

lemma inorder_nodes: "v \<in> set (inorder t) \<Longrightarrow> \<exists>a. (a, v) \<in> set (nodes t)"
  by (auto simp: inorder_def)

lemma rep_NdD:
  "rep h p (Nd a l v r) \<Longrightarrow>
     \<exists>n. p = Some a \<and> deref h a = Some n \<and> val n = Some v \<and> rep h (left n) l \<and> rep h (right n) r"
  by (cases "deref h a") auto

lemma version_SomeD:
  "version h s t \<Longrightarrow> tree s = Some a \<Longrightarrow>
     \<exists>n. deref h a = Some n \<and> val n = None \<and> right n = None \<and> rep h (left n) t"
  by (cases "deref h a") (auto simp: version_def)

lemma version_NoneD: "version h s t \<Longrightarrow> tree s = None \<Longrightarrow> t = Tip"
  by (simp add: version_def)

lemma rep_get_value: "rep h p t \<Longrightarrow> (a, v) \<in> set (nodes t) \<Longrightarrow> get_value h a = Some v"
proof (induction t arbitrary: p)
  case Tip
  then show ?case by simp
next
  case (Nd b l w r)
  from Nd.prems(1) obtain n where n: "deref h b = Some n" "val n = Some w"
    "rep h (left n) l" "rep h (right n) r"
    by (auto split: option.splits)
  from Nd.prems(2) consider "(a, v) \<in> set (nodes l)" | "a = b \<and> v = w" | "(a, v) \<in> set (nodes r)"
    by auto
  then show ?case
  proof cases
    case 1
    then show ?thesis using Nd.IH(1)[OF n(3)] by simp
  next
    case 2
    then show ?thesis using n by (simp add: get_value_def)
  next
    case 3
    then show ?thesis using Nd.IH(2)[OF n(4)] by simp
  qed
qed

lemma find_loop_rep:
  assumes "rep h p t" "bst t"
  shows "(x \<in> set (inorder t) \<longrightarrow>
            (\<exists>a. (a, x) \<in> set (nodes t) \<and>
                 find_loop h s p x = Some \<lparr>it_node = Some a, it_root = tree s\<rparr>)) \<and>
         (x \<notin> set (inorder t) \<longrightarrow> find_loop h s p x = Some (end_it s))"
  using assms
proof (induction t arbitrary: p)
  case Tip
  then show ?case by (subst find_loop.simps) simp
next
  case (Nd a l v r)
  from Nd.prems obtain n where n: "p = Some a" "deref h a = Some n" "val n = Some v"
    "rep h (left n) l" "rep h (right n) r"
    by (auto split: option.splits)
  from Nd.prems have b: "bst l" "bst r" "\<forall>y \<in> set (inorder l). y < v" "\<forall>y \<in> set (inorder r). v < y"
    by auto
  have gv: "get_value h a = Some v" using n by (simp add: get_value_def)
  consider (less) "x < v" | (eq) "x = v" | (greater) "v < x" by (meson less_linear)
  then show ?case
  proof cases
    case less
    then have "find_loop h s p x = find_loop h s (left n) x"
      using n gv by (subst find_loop.simps) simp
    moreover have "x \<notin> set (inorder r)" using b less by auto
    ultimately show ?thesis using Nd.IH(1)[OF n(4) b(1)] less by auto
  next
    case eq
    then have "find_loop h s p x = Some \<lparr>it_node = Some a, it_root = tree s\<rparr>"
      using n gv by (subst find_loop.simps) simp
    then show ?thesis using eq by auto
  next
    case greater
    then have "find_loop h s p x = find_loop h s (right n) x"
      using n gv by (subst find_loop.simps) (simp add: less_not_sym)
    moreover have "x \<notin> set (inorder l)" using b greater by auto
    ultimately show ?thesis using Nd.IH(2)[OF n(5) b(2)] greater by auto
  qed
qed

subsection \<open>Growing the store\<close>

lemma store_le_refl [simp]: "store_le h h"
  by (simp add: store_le_def)

lemma store_le_append [simp]: "store_le h (h @ ext)"
  by (simp add: store_le_def)

lemma store_le_trans: "store_le h h' \<Longrightarrow> store_le h' h'' \<Longrightarrow> store_le h h''"
proof -
  assume a: "store_le h h'" "store_le h' h''"
  then have len: "length h \<le> length h'" "length h' \<le> length h''"
    by (simp_all add: store_le_def)
  have "take (length h) h'' = take (length h) (take (length h') h'')"
    using len by (simp add: min_def)
  also have "\<dots> = take (length h) h'" using a by (simp add: store_le_def)
  also have "\<dots> = h" using a by (simp add: store_le_def)
  finally show ?thesis using len by (simp add: store_le_def)
qed

lemma store_le_length: "store_le h h' \<Longrightarrow> length h \<le> length h'"
  by (simp add: store_le_def)

lemma store_le_nth: "store_le h h' \<Longrightarrow> a < length h \<Longrightarrow> h' ! a = h ! a"
  by (metis nth_take store_le_def)

lemma store_le_deref: "store_le h h' \<Longrightarrow> deref h a = Some n \<Longrightarrow> deref h' a = Some n"
  using store_le_nth[of h h' a] store_le_length[of h h']
  by (auto simp: deref_def split: if_splits)

lemma store_le_get_value:
  "store_le h h' \<Longrightarrow> get_value h a = Some v \<Longrightarrow> get_value h' a = Some v"
  by (auto simp: get_value_def split: option.splits dest: store_le_deref)

lemma store_le_rep: "store_le h h' \<Longrightarrow> rep h p t \<Longrightarrow> rep h' p t"
proof (induction t arbitrary: p)
  case Tip
  then show ?case by simp
next
  case (Nd a l v r)
  from Nd.prems(2) obtain n where n: "p = Some a" "deref h a = Some n" "val n = Some v"
    "rep h (left n) l" "rep h (right n) r"
    by (auto split: option.splits)
  have "deref h' a = Some n" using store_le_deref[OF Nd.prems(1) n(2)] .
  then show ?case using n Nd.IH(1)[OF Nd.prems(1) n(4)] Nd.IH(2)[OF Nd.prems(1) n(5)]
    by simp
qed

lemma store_le_version:
  assumes le: "store_le h h'" and v: "version h s t"
  shows "version h' s t"
proof (cases "tree s")
  case None
  then show ?thesis using v by (simp add: version_def)
next
  case (Some a)
  from version_SomeD[OF v Some] obtain n where n: "deref h a = Some n" "val n = None" "rep h (left n) t"
    "right n = None"
    by auto
  then show ?thesis
    using Some store_le_deref[OF le n(1)] store_le_rep[OF le n(3)] by (simp add: version_def)
qed

lemma store_le_make_shared: "make_shared h n = (h', a) \<Longrightarrow> store_le h h'"
  by (auto simp: make_shared_def)

lemma store_le_set_left:
  assumes "store_le h h'" "length h \<le> a" "set_left h' a p = Some h''"
  shows "store_le h h''"
  using assms by (auto simp: store_le_def set_left_def split: if_splits)

lemma rep_addr_bound: "rep h p t \<Longrightarrow> a \<in> set (addrs t) \<Longrightarrow> a < length h"
proof (induction t arbitrary: p)
  case Tip
  then show ?case by simp
next
  case (Nd b l w r)
  from Nd.prems(1) obtain n where n: "deref h b = Some n" "rep h (left n) l" "rep h (right n) r"
    by (auto split: option.splits)
  from n(1) have "b < length h" by (simp add: deref_def split: if_splits)
  then show ?case using Nd.prems(2) Nd.IH(1)[OF n(2)] Nd.IH(2)[OF n(3)] by auto
qed

lemma rep_update_other:
  "rep h p t \<Longrightarrow> a \<notin> set (addrs t) \<Longrightarrow> rep (h[a := c]) p t"
proof (induction t arbitrary: p)
  case Tip
  then show ?case by simp
next
  case (Nd b l w r)
  from Nd.prems(1) obtain n where n: "p = Some b" "deref h b = Some n" "val n = Some w"
    "rep h (left n) l" "rep h (right n) r"
    by (auto split: option.splits)
  from Nd.prems(2) have ne: "a \<noteq> b" "a \<notin> set (addrs l)" "a \<notin> set (addrs r)" by auto
  have "deref (h[a := c]) b = Some n" using n(2) ne(1) by (auto simp: deref_def split: if_splits)
  then show ?case using n Nd.IH(1)[OF n(4) ne(2)] Nd.IH(2)[OF n(5) ne(3)] by simp
qed

lemma rep_unique: "rep h p t \<Longrightarrow> rep h p t' \<Longrightarrow> t = t'"
proof (induction t arbitrary: p t')
  case Tip
  then show ?case by (cases t') auto
next
  case (Nd a l v r)
  from Nd.prems(1) obtain n where n: "p = Some a" "deref h a = Some n" "val n = Some v"
    "rep h (left n) l" "rep h (right n) r"
    by (auto split: option.splits)
  from Nd.prems(2) n(1) obtain l' r' where t': "t' = Nd a l' v r'" "rep h (left n) l'" "rep h (right n) r'"
    using n(2,3) by (cases t') auto
  show ?case using Nd.IH(1)[OF n(4) t'(2)] Nd.IH(2)[OF n(5) t'(3)] t'(1) by simp
qed

lemma version_unique:
  assumes "version h s t" "version h s t'"
  shows "t = t'"
proof (cases "tree s")
  case None
  then show ?thesis using assms by (simp add: version_def)
next
  case (Some a)
  from version_SomeD[OF assms(1) Some] obtain n where n: "deref h a = Some n" "rep h (left n) t"
    by auto
  from version_SomeD[OF assms(2) Some] n(1) have "rep h (left n) t'" by auto
  from rep_unique[OF n(2) this] show ?thesis .
qed

lemma rep_subtree: "rep h p t \<Longrightarrow> u \<in> set (subtrees t) \<Longrightarrow> \<exists>q. rep h q u"
proof (induction t arbitrary: p)
  case Tip
  then show ?case by simp
next
  case (Nd a l v r)
  from rep_NdD[OF Nd.prems(1)] obtain n where n: "rep h (left n) l" "rep h (right n) r"
    "deref h a = Some n"
    by auto
  from Nd.prems(2) consider "u = Nd a l v r" | "u \<in> set (subtrees l)" | "u \<in> set (subtrees r)"
    by auto
  then show ?case
  proof cases
    case 1
    then show ?thesis using Nd.prems(1) by blast
  next
    case 2
    then show ?thesis using Nd.IH(1)[OF n(1)] by simp
  next
    case 3
    then show ?thesis using Nd.IH(2)[OF n(2)] by simp
  qed
qed

subsection \<open>Order facts\<close>

lemma bst_sorted: "bst t \<Longrightarrow> sorted_wrt (<) (inorder t)"
  by (induction t) (auto simp: sorted_wrt_append intro: less_trans)

lemma bst_distinct: "bst t \<Longrightarrow> distinct (inorder t)"
  using bst_sorted strict_sorted_iff by blast

lemma bst_subtree: "bst t \<Longrightarrow> u \<in> set (subtrees t) \<Longrightarrow> bst u"
  by (induction t) auto

subsection \<open>Minimum and maximum\<close>

lemma min_node_rep:
  "rep h (Some a) t \<Longrightarrow> min_node h a = Some (fst (hd (nodes t)))"
proof (induction t arbitrary: a)
  case Tip
  then show ?case by simp
next
  case (Nd b l w r)
  from Nd.prems obtain n where n: "a = b" "deref h b = Some n" "rep h (left n) l"
    by (auto split: option.splits)
  show ?case
  proof (cases l)
    case Tip
    then have "left n = None" using n(3) by simp
    then show ?thesis using n Tip by (subst min_node.simps) simp
  next
    case (Nd c l' u r')
    then have ln: "left n = Some c" using n(3) by simp
    then have "min_node h c = Some (fst (hd (nodes l)))"
      using Nd.IH(1)[of c] n(3) by simp
    moreover have "nodes l \<noteq> []" using Nd by simp
    ultimately show ?thesis using n ln by (subst min_node.simps) simp
  qed
qed

lemma max_node_rep:
  "rep h (Some a) t \<Longrightarrow> max_node h a = Some (fst (last (nodes t)))"
proof (induction t arbitrary: a)
  case Tip
  then show ?case by simp
next
  case (Nd b l w r)
  from Nd.prems obtain n where n: "a = b" "deref h b = Some n" "rep h (right n) r"
    by (auto split: option.splits)
  show ?case
  proof (cases r)
    case Tip
    then have "right n = None" using n(3) by simp
    then show ?thesis using n Tip by (subst max_node.simps) simp
  next
    case (Nd c l' u r')
    then have rn: "right n = Some c" using n(3) by simp
    then have "max_node h c = Some (fst (last (nodes r)))"
      using Nd.IH(2)[of c] n(3) by simp
    moreover have "nodes r \<noteq> []" using Nd by simp
    ultimately show ?thesis using n rn by (subst max_node.simps) simp
  qed
qed

subsection \<open>The concrete store\<close>

lemma run_store3:
  "run [Construct, Insert 0 5, Insert 0 3, Insert 0 8] ([], []) = Some (store3, [set3])"
  unfolding store3_def set3_def by code_simp

lemma version_store3: "version store3 set3 shape3"
  by (simp add: version_def store3_def set3_def shape3_def deref_def)

lemma bst_shape3: "bst shape3"
  by (simp add: shape3_def)

section \<open>The search\<close>

lemma version_rep: "version h s t \<Longrightarrow> \<exists>p. rep h p t"
  by (cases "tree s") (auto simp: version_def split: option.splits)

lemma version_get_value:
  assumes "version h s t" "(a, v) \<in> set (nodes t)"
  shows "get_value h a = Some v"
proof -
  from version_rep[OF assms(1)] obtain p where "rep h p t" ..
  then show ?thesis using assms(2) by (rule rep_get_value)
qed

lemma find_value_rep:
  assumes "version h s t" "bst t"
  shows "(x \<in> set (inorder t) \<longrightarrow>
            (\<exists>a. (a, x) \<in> set (nodes t) \<and>
                 find_value h s x = Some \<lparr>it_node = Some a, it_root = tree s\<rparr>)) \<and>
         (x \<notin> set (inorder t) \<longrightarrow> find_value h s x = Some (end_it s))"
proof (cases "tree s")
  case None
  then show ?thesis using version_NoneD[OF assms(1)] by (simp add: find_value_def)
next
  case (Some a)
  from version_SomeD[OF assms(1) Some] obtain n where n: "deref h a = Some n" "rep h (left n) t"
    by auto
  have "find_value h s x = find_loop h s (left n) x"
    using Some n by (simp add: find_value_def)
  then show ?thesis using find_loop_rep[OF n(2) assms(2), of x s] by simp
qed

text \<open>
  C4. On a handle whose cells form a search tree, \<open>find_value\<close> returns a cursor to the
  node that holds \<open>x\<close> when \<open>x\<close> is an element, and the end cursor when it is not. The
  search starts at the left child of the anchor, ends at a null pointer with the end
  cursor, and at a node goes left when the node's value is greater than \<open>x\<close>, right when
  it is smaller, and stops when it is neither. \<open>find_value\<close> returns a cursor only: the
  store and the handle are arguments, never results.
\<close>

theorem find_correct:
  assumes "version h s t" and "bst t"
  shows "(x \<in> set (inorder t) \<longrightarrow>
            (\<exists>a. (a, x) \<in> set (nodes t) \<and> get_value h a = Some x \<and>
                 find_value h s x = Some \<lparr>it_node = Some a, it_root = tree s\<rparr>)) \<and>
         (x \<notin> set (inorder t) \<longrightarrow> find_value h s x = Some (end_it s)) \<and>
         (\<forall>a n. tree s = Some a \<and> deref h a = Some n \<longrightarrow>
            find_value h s x = find_loop h s (left n) x) \<and>
         find_loop h s None x = Some (end_it s) \<and>
         (\<forall>c n v. deref h c = Some n \<and> val n = Some v \<longrightarrow>
            find_loop h s (Some c) x =
              (if x < v then find_loop h s (left n) x
               else if v < x then find_loop h s (right n) x
               else Some \<lparr>it_node = Some c, it_root = tree s\<rparr>))"
proof -
  have 1: "x \<in> set (inorder t) \<longrightarrow>
            (\<exists>a. (a, x) \<in> set (nodes t) \<and> get_value h a = Some x \<and>
                 find_value h s x = Some \<lparr>it_node = Some a, it_root = tree s\<rparr>)"
  proof
    assume "x \<in> set (inorder t)"
    with find_value_rep[OF assms, of x] obtain a where a: "(a, x) \<in> set (nodes t)"
      "find_value h s x = Some \<lparr>it_node = Some a, it_root = tree s\<rparr>"
      by auto
    have "get_value h a = Some x" using version_get_value[OF assms(1) a(1)] .
    then show "\<exists>a. (a, x) \<in> set (nodes t) \<and> get_value h a = Some x \<and>
                 find_value h s x = Some \<lparr>it_node = Some a, it_root = tree s\<rparr>"
      using a by blast
  qed
  have 2: "x \<notin> set (inorder t) \<longrightarrow> find_value h s x = Some (end_it s)"
    using find_value_rep[OF assms, of x] by simp
  have 3: "\<forall>a n. tree s = Some a \<and> deref h a = Some n \<longrightarrow>
            find_value h s x = find_loop h s (left n) x"
    by (simp add: find_value_def)
  have 4: "find_loop h s None x = Some (end_it s)"
    by (subst find_loop.simps) simp
  have 5: "\<forall>c n v. deref h c = Some n \<and> val n = Some v \<longrightarrow>
            find_loop h s (Some c) x =
              (if x < v then find_loop h s (left n) x
               else if v < x then find_loop h s (right n) x
               else Some \<lparr>it_node = Some c, it_root = tree s\<rparr>)"
    by (subst find_loop.simps) (simp add: get_value_def)
  from 1 2 3 4 5 show ?thesis by blast
qed

theorem find_correct_witness:
  "find_value store3 set3 (8::nat) = Some \<lparr>it_node = Some 7, it_root = Some 6\<rparr> \<and>
   find_value store3 set3 4 = Some (end_it set3)"
proof -
  have "\<exists>a. (a, 8) \<in> set (nodes shape3) \<and>
          find_value store3 set3 8 = Some \<lparr>it_node = Some a, it_root = tree set3\<rparr>"
    using find_correct[OF version_store3 bst_shape3, of 8] by (simp add: shape3_def)
  then have "find_value store3 set3 8 = Some \<lparr>it_node = Some 7, it_root = Some 6\<rparr>"
    by (auto simp: shape3_def set3_def)
  moreover have "find_value store3 set3 4 = Some (end_it set3)"
    using find_correct[OF version_store3 bst_shape3, of 4] by (simp add: shape3_def)
  ultimately show ?thesis by simp
qed

section \<open>Termination of the descents\<close>

lemma find_loop_shape: "rep h p t \<Longrightarrow> find_loop h s p x = Some (find_shape s t x)"
proof (induction t arbitrary: p)
  case Tip
  then show ?case by (subst find_loop.simps) simp
next
  case (Nd a l v r)
  from rep_NdD[OF Nd.prems] obtain n where n: "p = Some a" "deref h a = Some n" "val n = Some v"
    "rep h (left n) l" "rep h (right n) r"
    by auto
  have gv: "get_value h a = Some v" using n by (simp add: get_value_def)
  show ?case
    using n gv Nd.IH(1)[OF n(4)] Nd.IH(2)[OF n(5)]
    by (subst find_loop.simps) simp
qed

lemma next_loop_shape:
  "rep h p t \<Longrightarrow> get_value h this = Some tv \<Longrightarrow>
     next_loop h this p result = next_shape tv t result"
proof (induction t arbitrary: p result)
  case Tip
  then show ?case by (subst next_loop.simps) simp
next
  case (Nd c l cv r)
  from rep_NdD[OF Nd.prems(1)] obtain n where n: "p = Some c" "deref h c = Some n"
    "val n = Some cv" "rep h (left n) l" "rep h (right n) r"
    by auto
  have gv: "get_value h c = Some cv" using n by (simp add: get_value_def)
  show ?case
    using n gv Nd.prems(2) Nd.IH(1)[OF n(4) Nd.prems(2)] Nd.IH(2)[OF n(5) Nd.prems(2)]
    by (subst next_loop.simps) simp
qed

lemma prev_loop_shape:
  "rep h p t \<Longrightarrow> get_value h this = Some tv \<Longrightarrow>
     prev_loop h this p result = prev_shape tv t result"
proof (induction t arbitrary: p result)
  case Tip
  then show ?case by (subst prev_loop.simps) simp
next
  case (Nd c l cv r)
  from rep_NdD[OF Nd.prems(1)] obtain n where n: "p = Some c" "deref h c = Some n"
    "val n = Some cv" "rep h (left n) l" "rep h (right n) r"
    by auto
  have gv: "get_value h c = Some cv" using n by (simp add: get_value_def)
  show ?case
    using n gv Nd.prems(2) Nd.IH(1)[OF n(4) Nd.prems(2)] Nd.IH(2)[OF n(5) Nd.prems(2)]
    by (subst prev_loop.simps) simp
qed

lemma next_shape_total:
  "bst t \<Longrightarrow> tv \<in> set (inorder t) \<Longrightarrow> \<exists>b. next_shape tv t result = Some b"
proof (induction t arbitrary: result)
  case Tip
  then show ?case by simp
next
  case (Nd c l cv r)
  then show ?case by (cases "cv < tv"; cases "tv < cv") (auto simp: less_not_sym)
qed

lemma prev_shape_total:
  "bst t \<Longrightarrow> tv \<in> set (inorder t) \<Longrightarrow> \<exists>b. prev_shape tv t result = Some b"
proof (induction t arbitrary: result)
  case Tip
  then show ?case by simp
next
  case (Nd c l cv r)
  then show ?case by (cases "cv < tv"; cases "tv < cv") (auto simp: less_not_sym)
qed

text \<open>
  C10. The loop of \<open>find_value\<close> returns on every finite tree, ordered or not, and so
  does \<open>find_value\<close>. The loops of \<open>next_node\<close> and \<open>prev_node\<close> return on every finite
  search tree that holds the value of the node stepped from. Each loop computes what
  the structural recursion on the remaining subtree computes (\<open>find_shape\<close>,
  \<open>next_shape\<close>, \<open>prev_shape\<close>).
\<close>

theorem descents_terminate:
  "(rep h p t \<longrightarrow> find_loop h s p x = Some (find_shape s t x)) \<and>
   (version h s t \<longrightarrow> (\<exists>it. find_value h s x = Some it)) \<and>
   (rep h p t \<and> get_value h this = Some tv \<longrightarrow>
      next_loop h this p result = next_shape tv t result \<and>
      prev_loop h this p result = prev_shape tv t result) \<and>
   (rep h p t \<and> get_value h this = Some tv \<and> bst t \<and> tv \<in> set (inorder t) \<longrightarrow>
      (\<exists>b. next_loop h this p result = Some b) \<and>
      (\<exists>b. prev_loop h this p result = Some b))"
proof -
  have 1: "rep h p t \<longrightarrow> find_loop h s p x = Some (find_shape s t x)"
    by (simp add: find_loop_shape)
  have 2: "version h s t \<longrightarrow> (\<exists>it. find_value h s x = Some it)"
  proof
    assume v: "version h s t"
    show "\<exists>it. find_value h s x = Some it"
    proof (cases "tree s")
      case None
      then show ?thesis by (simp add: find_value_def)
    next
      case (Some a)
      from version_SomeD[OF v Some] obtain n where n: "deref h a = Some n" "rep h (left n) t"
        by auto
      then show ?thesis using Some find_loop_shape[OF n(2), of s x] by (simp add: find_value_def)
    qed
  qed
  have 3: "rep h p t \<and> get_value h this = Some tv \<longrightarrow>
      next_loop h this p result = next_shape tv t result \<and>
      prev_loop h this p result = prev_shape tv t result"
    by (simp add: next_loop_shape prev_loop_shape)
  have 4: "rep h p t \<and> get_value h this = Some tv \<and> bst t \<and> tv \<in> set (inorder t) \<longrightarrow>
      (\<exists>b. next_loop h this p result = Some b) \<and>
      (\<exists>b. prev_loop h this p result = Some b)"
    using next_shape_total[of t tv result] prev_shape_total[of t tv result]
    by (auto simp: next_loop_shape prev_loop_shape)
  from 1 2 3 4 show ?thesis by blast
qed

theorem descents_terminate_witness:
  "find_loop store3 set3 (Some 8) (3::nat) = Some \<lparr>it_node = Some 4, it_root = Some 6\<rparr> \<and>
   (\<exists>it. find_value store3 set3 (4::nat) = Some it) \<and>
   next_loop store3 4 (Some 8) 6 = Some 8 \<and>
   prev_loop store3 7 (Some 8) 6 = Some 8"
proof -
  have r: "rep store3 (Some 8) shape3"
    by (simp add: store3_def shape3_def deref_def)
  have g: "get_value store3 4 = Some 3" "get_value store3 7 = Some 8"
    by (simp_all add: store3_def get_value_def deref_def)
  have "find_loop store3 set3 (Some 8) (3::nat) = Some \<lparr>it_node = Some 4, it_root = Some 6\<rparr>"
    using descents_terminate[of store3 "Some 8" shape3 set3 3] r
    by (simp add: shape3_def set3_def)
  moreover have "\<exists>it. find_value store3 set3 (4::nat) = Some it"
    using descents_terminate[of store3 "Some 8" shape3 set3 4] version_store3 by blast
  moreover have "next_loop store3 4 (Some 8) 6 = Some 8"
    using descents_terminate[of store3 "Some 8" shape3 set3 3 4 3 6] r g
    by (simp add: shape3_def)
  moreover have "prev_loop store3 7 (Some 8) 6 = Some 8"
    using descents_terminate[of store3 "Some 8" shape3 set3 3 7 8 6] r g
    by (simp add: shape3_def)
  ultimately show ?thesis by blast
qed

section \<open>Successor and predecessor\<close>

lemma subtrees_nodes: "Nd a l v r \<in> set (subtrees t) \<Longrightarrow> (a, v) \<in> set (nodes t)"
  by (induction t) auto

lemma nodes_subtrees: "(a, v) \<in> set (nodes t) \<Longrightarrow> \<exists>l r. Nd a l v r \<in> set (subtrees t)"
  by (induction t) auto

lemma subtrees_inorder: "Nd a l v r \<in> set (subtrees t) \<Longrightarrow> v \<in> set (inorder t)"
  using subtrees_nodes nodes_inorder by fastforce

lemma above_simps [simp]:
  "nodes_above v Tip = []"
  "nodes_above v (Nd c l w r) = nodes_above v l @ (if v < w then [(c, w)] else []) @ nodes_above v r"
  by (simp_all add: nodes_above_def)

lemma below_simps [simp]:
  "nodes_below v Tip = []"
  "nodes_below v (Nd c l w r) = nodes_below v l @ (if w < v then [(c, w)] else []) @ nodes_below v r"
  by (simp_all add: nodes_below_def)

lemma above_none: "\<forall>x \<in> set (inorder t). x \<le> v \<Longrightarrow> nodes_above v t = []"
  by (auto simp: nodes_above_def inorder_def filter_empty_conv)

lemma above_all: "\<forall>x \<in> set (inorder t). v < x \<Longrightarrow> nodes_above v t = nodes t"
  by (auto simp: nodes_above_def inorder_def filter_id_conv)

lemma below_none: "\<forall>x \<in> set (inorder t). v \<le> x \<Longrightarrow> nodes_below v t = []"
  by (auto simp: nodes_below_def inorder_def filter_empty_conv)

lemma below_all: "\<forall>x \<in> set (inorder t). x < v \<Longrightarrow> nodes_below v t = nodes t"
  by (auto simp: nodes_below_def inorder_def filter_id_conv)

lemma above_subset: "bw \<in> set (nodes_above v t) \<Longrightarrow> bw \<in> set (nodes t) \<and> v < snd bw"
  by (simp add: nodes_above_def)

lemma below_subset: "bw \<in> set (nodes_below v t) \<Longrightarrow> bw \<in> set (nodes t) \<and> snd bw < v"
  by (simp add: nodes_below_def)

lemma nodes_Nil: "nodes t = [] \<longleftrightarrow> t = Tip"
  by (cases t) auto

lemma next_shape_above:
  "bst t \<Longrightarrow> Nd a l v Tip \<in> set (subtrees t) \<Longrightarrow>
     next_shape v t result = Some (if nodes_above v t = [] then result else fst (hd (nodes_above v t)))"
proof (induction t arbitrary: result)
  case Tip
  then show ?case by simp
next
  case (Nd c tl w tr)
  from Nd.prems(1) have b: "bst tl" "bst tr" "\<forall>y \<in> set (inorder tl). y < w"
    "\<forall>y \<in> set (inorder tr). w < y"
    by auto
  from Nd.prems(2) consider (here) "c = a" "tl = l" "w = v" "tr = Tip"
    | (left) "Nd a l v Tip \<in> set (subtrees tl)"
    | (right) "Nd a l v Tip \<in> set (subtrees tr)"
    by auto
  then show ?case
  proof cases
    case here
    have "nodes_above v tl = []" using b(3) here by (intro above_none) auto
    then show ?thesis using here by simp
  next
    case left
    then have lt: "v < w" using subtrees_inorder b(3) by fastforce
    have "nodes_above v tr = nodes tr" using b(4) lt by (intro above_all) auto
    then show ?thesis using lt Nd.IH(1)[OF b(1) left, of c] by (simp add: less_not_sym)
  next
    case right
    then have gt: "w < v" using subtrees_inorder b(4) by fastforce
    have "nodes_above v tl = []" using b(3) gt by (intro above_none) auto
    then show ?thesis using gt Nd.IH(2)[OF b(2) right, of result] by (simp add: less_not_sym)
  qed
qed

lemma prev_shape_below:
  "bst t \<Longrightarrow> Nd a Tip v r \<in> set (subtrees t) \<Longrightarrow>
     prev_shape v t result = Some (if nodes_below v t = [] then result else fst (last (nodes_below v t)))"
proof (induction t arbitrary: result)
  case Tip
  then show ?case by simp
next
  case (Nd c tl w tr)
  from Nd.prems(1) have b: "bst tl" "bst tr" "\<forall>y \<in> set (inorder tl). y < w"
    "\<forall>y \<in> set (inorder tr). w < y"
    by auto
  from Nd.prems(2) consider (here) "c = a" "tl = Tip" "w = v" "tr = r"
    | (left) "Nd a Tip v r \<in> set (subtrees tl)"
    | (right) "Nd a Tip v r \<in> set (subtrees tr)"
    by auto
  then show ?case
  proof cases
    case here
    have "nodes_below v tr = []" using b(4) here by (intro below_none) auto
    then show ?thesis using here by simp
  next
    case left
    then have lt: "v < w" using subtrees_inorder b(3) by fastforce
    have "nodes_below v tr = []" using b(4) lt by (intro below_none) auto
    then show ?thesis using lt Nd.IH(1)[OF b(1) left, of result] by (simp add: less_not_sym)
  next
    case right
    then have gt: "w < v" using subtrees_inorder b(4) by fastforce
    have "nodes_below v tl = nodes tl" using b(3) gt by (intro below_all) auto
    then show ?thesis using gt Nd.IH(2)[OF b(2) right, of c] by (simp add: less_not_sym)
  qed
qed

lemma above_right_subtree:
  "bst t \<Longrightarrow> Nd a l v r \<in> set (subtrees t) \<Longrightarrow> r \<noteq> Tip \<Longrightarrow>
     nodes_above v t \<noteq> [] \<and> hd (nodes_above v t) = hd (nodes r)"
proof (induction t)
  case Tip
  then show ?case by simp
next
  case (Nd c tl w tr)
  from Nd.prems(1) have b: "bst tl" "bst tr" "\<forall>y \<in> set (inorder tl). y < w"
    "\<forall>y \<in> set (inorder tr). w < y"
    by auto
  from Nd.prems(2) consider (here) "c = a" "tl = l" "w = v" "tr = r"
    | (left) "Nd a l v r \<in> set (subtrees tl)"
    | (right) "Nd a l v r \<in> set (subtrees tr)"
    by auto
  then show ?case
  proof cases
    case here
    have "nodes_above v tl = []" using b(3) here by (intro above_none) auto
    moreover have "nodes_above v tr = nodes tr" using b(4) here by (intro above_all) auto
    ultimately show ?thesis using here Nd.prems(3) by (simp add: nodes_Nil)
  next
    case left
    then show ?thesis using Nd.IH(1)[OF b(1) left Nd.prems(3)] by simp
  next
    case right
    then have gt: "w < v" using subtrees_inorder b(4) by fastforce
    have "nodes_above v tl = []" using b(3) gt by (intro above_none) auto
    then show ?thesis using gt Nd.IH(2)[OF b(2) right Nd.prems(3)] by (simp add: less_not_sym)
  qed
qed

lemma below_left_subtree:
  "bst t \<Longrightarrow> Nd a l v r \<in> set (subtrees t) \<Longrightarrow> l \<noteq> Tip \<Longrightarrow>
     nodes_below v t \<noteq> [] \<and> last (nodes_below v t) = last (nodes l)"
proof (induction t)
  case Tip
  then show ?case by simp
next
  case (Nd c tl w tr)
  from Nd.prems(1) have b: "bst tl" "bst tr" "\<forall>y \<in> set (inorder tl). y < w"
    "\<forall>y \<in> set (inorder tr). w < y"
    by auto
  from Nd.prems(2) consider (here) "c = a" "tl = l" "w = v" "tr = r"
    | (left) "Nd a l v r \<in> set (subtrees tl)"
    | (right) "Nd a l v r \<in> set (subtrees tr)"
    by auto
  then show ?case
  proof cases
    case here
    have "nodes_below v tr = []" using b(4) here by (intro below_none) auto
    moreover have "nodes_below v tl = nodes tl" using b(3) here by (intro below_all) auto
    ultimately show ?thesis using here Nd.prems(3) by (simp add: nodes_Nil)
  next
    case left
    then have lt: "v < w" using subtrees_inorder b(3) by fastforce
    have "nodes_below v tr = []" using b(4) lt by (intro below_none) auto
    then show ?thesis using lt Nd.IH(1)[OF b(1) left Nd.prems(3)] by (simp add: less_not_sym)
  next
    case right
    then show ?thesis using Nd.IH(2)[OF b(2) right Nd.prems(3)] by simp
  qed
qed

lemma version_anchor_not_node:
  assumes "version h s t" "tree s = Some anchor"
  shows "anchor \<notin> set (addrs t)"
proof
  assume "anchor \<in> set (addrs t)"
  then obtain v where "(anchor, v) \<in> set (nodes t)" by (auto simp: addrs_def)
  then have "get_value h anchor = Some v" using version_get_value[OF assms(1)] by simp
  moreover from version_SomeD[OF assms] have "get_value h anchor = None"
    by (auto simp: get_value_def)
  ultimately show False by simp
qed

lemma version_subtree:
  assumes "version h s t" "Nd a l v r \<in> set (subtrees t)"
  shows "\<exists>n. deref h a = Some n \<and> val n = Some v \<and> rep h (left n) l \<and> rep h (right n) r"
proof -
  from version_rep[OF assms(1)] obtain p where "rep h p t" ..
  from rep_subtree[OF this assms(2)] obtain q where "rep h q (Nd a l v r)" ..
  from rep_NdD[OF this] show ?thesis by auto
qed

lemma next_node_above:
  assumes v: "version h s t" and anchor: "tree s = Some anchor" and b: "bst t"
    and sub: "Nd a l v r \<in> set (subtrees t)"
  shows "next_node h a (Some anchor) =
           Some (if nodes_above v t = [] then anchor else fst (hd (nodes_above v t)))"
proof -
  from version_subtree[OF v sub] obtain n where n: "deref h a = Some n" "val n = Some v"
    "rep h (left n) l" "rep h (right n) r"
    by auto
  from version_SomeD[OF v anchor] obtain an where an: "deref h anchor = Some an"
    "rep h (left an) t"
    by auto
  have gv: "get_value h a = Some v" using n by (simp add: get_value_def)
  show ?thesis
  proof (cases r)
    case Tip
    then have "right n = None" using n(4) by simp
    then have "next_node h a (Some anchor) = next_shape v t anchor"
      using n an next_loop_shape[OF an(2) gv] by (simp add: next_node_def)
    then show ?thesis using next_shape_above[OF b] sub Tip by simp
  next
    case (Nd c rl w rr)
    then have rn: "right n = Some c" using n(4) by simp
    have "min_node h c = Some (fst (hd (nodes r)))"
      using min_node_rep[of h c r] n(4) rn by simp
    then have "next_node h a (Some anchor) = Some (fst (hd (nodes r)))"
      using n rn by (simp add: next_node_def)
    moreover have "nodes_above v t \<noteq> [] \<and> hd (nodes_above v t) = hd (nodes r)"
      using above_right_subtree[OF b sub] Nd by simp
    ultimately show ?thesis by simp
  qed
qed

lemma prev_node_below:
  assumes v: "version h s t" and anchor: "tree s = Some anchor" and b: "bst t"
    and sub: "Nd a l v r \<in> set (subtrees t)"
  shows "prev_node h a (Some anchor) =
           Some (if nodes_below v t = [] then anchor else fst (last (nodes_below v t)))"
proof -
  from version_subtree[OF v sub] obtain n where n: "deref h a = Some n" "val n = Some v"
    "rep h (left n) l" "rep h (right n) r"
    by auto
  from version_SomeD[OF v anchor] obtain an where an: "deref h anchor = Some an"
    "rep h (left an) t"
    by auto
  have gv: "get_value h a = Some v" using n by (simp add: get_value_def)
  show ?thesis
  proof (cases l)
    case Tip
    then have "left n = None" using n(3) by simp
    then have "prev_node h a (Some anchor) = prev_shape v t anchor"
      using n an prev_loop_shape[OF an(2) gv] by (simp add: prev_node_def)
    then show ?thesis using prev_shape_below[OF b] sub Tip by simp
  next
    case (Nd c ll w lr)
    then have ln: "left n = Some c" using n(3) by simp
    have "max_node h c = Some (fst (last (nodes l)))"
      using max_node_rep[of h c l] n(3) ln by simp
    then have "prev_node h a (Some anchor) = Some (fst (last (nodes l)))"
      using n ln by (simp add: prev_node_def)
    moreover have "nodes_below v t \<noteq> [] \<and> last (nodes_below v t) = last (nodes l)"
      using below_left_subtree[OF b sub] Nd by simp
    ultimately show ?thesis by simp
  qed
qed

subsection \<open>The least node above a value\<close>

lemma filter_above_sorted:
  fixes xs :: "(addr \<times> 'a::linorder) list"
  shows "sorted_wrt (<) (map snd xs) \<Longrightarrow> filter (\<lambda>bw. v < snd bw) xs = c # rest \<Longrightarrow>
     filter (\<lambda>bw. snd c < snd bw) xs = rest \<and> (\<forall>y \<in> set xs. v < snd y \<longrightarrow> snd c \<le> snd y)"
proof (induction xs)
  case Nil
  then show ?case by simp
next
  case (Cons x xs)
  from Cons.prems(1) have s: "sorted_wrt (<) (map snd xs)" "\<forall>y \<in> set xs. snd x < snd y"
    by auto
  show ?case
  proof (cases "v < snd x")
    case True
    then have c: "c = x" "rest = filter (\<lambda>bw. v < snd bw) xs" using Cons.prems(2) by auto
    have "filter (\<lambda>bw. v < snd bw) xs = xs" using s(2) True by (auto simp: filter_id_conv)
    moreover have "filter (\<lambda>bw. snd x < snd bw) xs = xs" using s(2) by (auto simp: filter_id_conv)
    ultimately show ?thesis using c s(2) by auto
  next
    case False
    then have f: "filter (\<lambda>bw. v < snd bw) xs = c # rest" using Cons.prems(2) by simp
    from Cons.IH[OF s(1) f] have ih: "filter (\<lambda>bw. snd c < snd bw) xs = rest"
      "\<forall>y \<in> set xs. v < snd y \<longrightarrow> snd c \<le> snd y"
      by auto
    have "c \<in> set (filter (\<lambda>bw. v < snd bw) xs)" using f by simp
    then have "v < snd c" by simp
    then have "\<not> snd c < snd x" using False by auto
    then show ?thesis using ih False by auto
  qed
qed

lemma filter_below_sorted:
  fixes xs :: "(addr \<times> 'a::linorder) list"
  shows "sorted_wrt (<) (map snd xs) \<Longrightarrow> filter (\<lambda>bw. snd bw < v) xs = rest @ [c] \<Longrightarrow>
     filter (\<lambda>bw. snd bw < snd c) xs = rest \<and> (\<forall>y \<in> set xs. snd y < v \<longrightarrow> snd y \<le> snd c)"
proof (induction xs arbitrary: rest)
  case Nil
  then show ?case by simp
next
  case (Cons x xs)
  from Cons.prems(1) have s: "sorted_wrt (<) (map snd xs)" "\<forall>y \<in> set xs. snd x < snd y"
    by auto
  show ?case
  proof (cases "snd x < v")
    case False
    then have "\<forall>y \<in> set xs. \<not> snd y < v" using s(2) by auto
    then have "filter (\<lambda>bw. snd bw < v) xs = []" by (auto simp: filter_empty_conv)
    then show ?thesis using False Cons.prems(2) by simp
  next
    case True
    then have f: "x # filter (\<lambda>bw. snd bw < v) xs = rest @ [c]" using Cons.prems(2) by simp
    show ?thesis
    proof (cases rest)
      case Nil
      then have c: "c = x" "filter (\<lambda>bw. snd bw < v) xs = []" using f by auto
      have "\<forall>y \<in> set xs. \<not> snd y < v" using c(2) by (auto simp: filter_empty_conv)
      moreover have "filter (\<lambda>bw. snd bw < snd x) xs = []"
        using s(2) by (auto simp: filter_empty_conv)
      ultimately show ?thesis using c Nil by auto
    next
      case (Cons r rest')
      then have f': "r = x" "filter (\<lambda>bw. snd bw < v) xs = rest' @ [c]" using f by auto
      from Cons.IH[OF s(1) f'(2)] have ih: "filter (\<lambda>bw. snd bw < snd c) xs = rest'"
        "\<forall>y \<in> set xs. snd y < v \<longrightarrow> snd y \<le> snd c"
        by auto
      have "c \<in> set (filter (\<lambda>bw. snd bw < v) xs)" using f'(2) by simp
      then have "c \<in> set xs" by simp
      then have "snd x < snd c" using s(2) by simp
      then show ?thesis using ih f'(1) Cons by auto
    qed
  qed
qed

lemma bst_sorted_nodes: "bst t \<Longrightarrow> sorted_wrt (<) (map snd (nodes t))"
  using bst_sorted by (simp add: inorder_def)

lemma above_step:
  assumes "bst t" "nodes_above v t = (b, w) # rest"
  shows "nodes_above w t = rest" "(b, w) \<in> set (nodes t)" "v < w"
    "\<forall>y \<in> set (inorder t). v < y \<longrightarrow> w \<le> y"
proof -
  from filter_above_sorted[OF bst_sorted_nodes[OF assms(1)], of v "(b, w)" rest] assms(2)
  have f: "filter (\<lambda>bw. w < snd bw) (nodes t) = rest"
    "\<forall>y \<in> set (nodes t). v < snd y \<longrightarrow> w \<le> snd y"
    by (auto simp: nodes_above_def)
  show "nodes_above w t = rest" using f(1) by (simp add: nodes_above_def)
  have "(b, w) \<in> set (nodes_above v t)" using assms(2) by simp
  then show "(b, w) \<in> set (nodes t)" "v < w" using above_subset by fastforce+
  show "\<forall>y \<in> set (inorder t). v < y \<longrightarrow> w \<le> y" using f(2) by (auto simp: inorder_def)
qed

lemma below_step:
  assumes "bst t" "nodes_below v t = rest @ [(b, w)]"
  shows "nodes_below w t = rest" "(b, w) \<in> set (nodes t)" "w < v"
    "\<forall>y \<in> set (inorder t). y < v \<longrightarrow> y \<le> w"
proof -
  from filter_below_sorted[OF bst_sorted_nodes[OF assms(1)], of v rest "(b, w)"] assms(2)
  have f: "filter (\<lambda>bw. snd bw < w) (nodes t) = rest"
    "\<forall>y \<in> set (nodes t). snd y < v \<longrightarrow> snd y \<le> w"
    by (auto simp: nodes_below_def)
  show "nodes_below w t = rest" using f(1) by (simp add: nodes_below_def)
  have "(b, w) \<in> set (nodes_below v t)" using assms(2) by simp
  then show "(b, w) \<in> set (nodes t)" "w < v" using below_subset by fastforce+
  show "\<forall>y \<in> set (inorder t). y < v \<longrightarrow> y \<le> w" using f(2) by (auto simp: inorder_def)
qed

lemma next_shape_candidates:
  "next_shape v t result = Some b \<Longrightarrow> b = last (result # candidates_next v t)"
proof (induction t arbitrary: result)
  case Tip
  then show ?case by simp
next
  case (Nd c l w r)
  then show ?case by (cases "w < v"; cases "v < w") (auto simp: less_not_sym)
qed

lemma prev_shape_candidates:
  "prev_shape v t result = Some b \<Longrightarrow> b = last (result # candidates_prev v t)"
proof (induction t arbitrary: result)
  case Tip
  then show ?case by simp
next
  case (Nd c l w r)
  then show ?case by (cases "w < v"; cases "v < w") (auto simp: less_not_sym)
qed

lemma next_node_no_right:
  assumes v: "version h s t" and anchor: "tree s = Some anchor"
    and sub: "Nd a l v Tip \<in> set (subtrees t)"
  shows "next_node h a (Some anchor) = next_shape v t anchor"
proof -
  from version_subtree[OF v sub] obtain n where n: "deref h a = Some n" "val n = Some v"
    "rep h (right n) Tip"
    by auto
  from version_SomeD[OF v anchor] obtain an where an: "deref h anchor = Some an"
    "rep h (left an) t"
    by auto
  have gv: "get_value h a = Some v" using n by (simp add: get_value_def)
  have "right n = None" using n(3) by simp
  then show ?thesis
    using n an next_loop_shape[OF an(2) gv] by (simp add: next_node_def)
qed

lemma prev_node_no_left:
  assumes v: "version h s t" and anchor: "tree s = Some anchor"
    and sub: "Nd a Tip v r \<in> set (subtrees t)"
  shows "prev_node h a (Some anchor) = prev_shape v t anchor"
proof -
  from version_subtree[OF v sub] obtain n where n: "deref h a = Some n" "val n = Some v"
    "rep h (left n) Tip"
    by auto
  from version_SomeD[OF v anchor] obtain an where an: "deref h anchor = Some an"
    "rep h (left an) t"
    by auto
  have gv: "get_value h a = Some v" using n by (simp add: get_value_def)
  have "left n = None" using n(3) by simp
  then show ?thesis
    using n an prev_loop_shape[OF an(2) gv] by (simp add: prev_node_def)
qed

lemma bst_hd_least:
  assumes "bst t" "t \<noteq> Tip"
  shows "hd (nodes t) \<in> set (nodes t)" "\<forall>y \<in> set (inorder t). snd (hd (nodes t)) \<le> y"
proof -
  from assms(2) obtain x xs where x: "nodes t = x # xs" by (cases "nodes t") (auto simp: nodes_Nil)
  then show "hd (nodes t) \<in> set (nodes t)" by simp
  from bst_sorted_nodes[OF assms(1)] x have "\<forall>y \<in> set (map snd xs). snd x < y" by simp
  then show "\<forall>y \<in> set (inorder t). snd (hd (nodes t)) \<le> y"
    using x by (auto simp: inorder_def)
qed

lemma bst_last_greatest:
  assumes "bst t" "t \<noteq> Tip"
  shows "last (nodes t) \<in> set (nodes t)" "\<forall>y \<in> set (inorder t). y \<le> snd (last (nodes t))"
proof -
  from assms(2) have ne: "nodes t \<noteq> []" by (simp add: nodes_Nil)
  then obtain xs x where x: "nodes t = xs @ [x]" by (metis append_butlast_last_id)
  then show "last (nodes t) \<in> set (nodes t)" by simp
  from bst_sorted_nodes[OF assms(1)] x have "\<forall>y \<in> set (map snd xs). y < snd x"
    by (simp add: sorted_wrt_append)
  then show "\<forall>y \<in> set (inorder t). y \<le> snd (last (nodes t))"
    using x by (auto simp: inorder_def)
qed

text \<open>
  C6. Let \<open>N = Nd a l v r\<close> be a node of the search tree of a handle with anchor
  \<open>anchor\<close>. Incrementing the cursor at \<open>N\<close> returns a cursor at a node \<open>b\<close> of the same
  handle such that: when the right subtree \<open>r\<close> is not empty, \<open>b\<close> is a node of \<open>r\<close> whose
  value is the least of \<open>r\<close>; when \<open>r\<close> is empty, \<open>b\<close> is the last candidate recorded by
  the descent from the real root, or the anchor when none is recorded; in both cases
  \<open>b\<close> holds the least element greater than \<open>v\<close>, or is the anchor when no element is
  greater. Decrementing is symmetric, with the left subtree, its greatest value and the
  greatest element less than \<open>v\<close>.
\<close>

theorem cursor_stepping:
  assumes "version h s t" and "tree s = Some anchor" and "bst t"
    and "Nd a l v r \<in> set (subtrees t)"
  shows "(\<exists>b. incr h \<lparr>it_node = Some a, it_root = tree s\<rparr> =
                Some \<lparr>it_node = Some b, it_root = tree s\<rparr> \<and>
              (r \<noteq> Tip \<longrightarrow> (\<exists>w. (b, w) \<in> set (nodes r) \<and> (\<forall>y \<in> set (inorder r). w \<le> y))) \<and>
              (r = Tip \<longrightarrow> b = last (anchor # candidates_next v t)) \<and>
              (if \<exists>y \<in> set (inorder t). v < y
               then \<exists>w. (b, w) \<in> set (nodes t) \<and> v < w \<and> (\<forall>y \<in> set (inorder t). v < y \<longrightarrow> w \<le> y)
               else b = anchor)) \<and>
         (\<exists>b. decr h \<lparr>it_node = Some a, it_root = tree s\<rparr> =
                Some \<lparr>it_node = Some b, it_root = tree s\<rparr> \<and>
              (l \<noteq> Tip \<longrightarrow> (\<exists>w. (b, w) \<in> set (nodes l) \<and> (\<forall>y \<in> set (inorder l). y \<le> w))) \<and>
              (l = Tip \<longrightarrow> b = last (anchor # candidates_prev v t)) \<and>
              (if \<exists>y \<in> set (inorder t). y < v
               then \<exists>w. (b, w) \<in> set (nodes t) \<and> w < v \<and> (\<forall>y \<in> set (inorder t). y < v \<longrightarrow> y \<le> w)
               else b = anchor))"
proof -
  have sub_bst: "bst (Nd a l v r)" using bst_subtree[OF assms(3,4)] .
  then have blr: "bst l" "bst r" by auto
  define b where "b = (if nodes_above v t = [] then anchor else fst (hd (nodes_above v t)))"
  have nx: "next_node h a (Some anchor) = Some b"
    using next_node_above[OF assms] b_def by simp
  have n1: "incr h \<lparr>it_node = Some a, it_root = tree s\<rparr> =
              Some \<lparr>it_node = Some b, it_root = tree s\<rparr>"
    using nx assms(2) by (simp add: incr_def)
  have n2: "r \<noteq> Tip \<longrightarrow> (\<exists>w. (b, w) \<in> set (nodes r) \<and> (\<forall>y \<in> set (inorder r). w \<le> y))"
  proof
    assume r: "r \<noteq> Tip"
    from above_right_subtree[OF assms(3,4) r] have "b = fst (hd (nodes r))"
      by (simp add: b_def)
    then have "(b, snd (hd (nodes r))) \<in> set (nodes r)"
      using bst_hd_least(1)[OF blr(2) r] by simp
    then show "\<exists>w. (b, w) \<in> set (nodes r) \<and> (\<forall>y \<in> set (inorder r). w \<le> y)"
      using bst_hd_least(2)[OF blr(2) r] by blast
  qed
  have n3: "r = Tip \<longrightarrow> b = last (anchor # candidates_next v t)"
  proof
    assume r: "r = Tip"
    then have "next_shape v t anchor = Some b"
      using next_node_no_right[OF assms(1,2), of a l v] assms(4) nx by simp
    then show "b = last (anchor # candidates_next v t)" by (rule next_shape_candidates)
  qed
  have n4: "if \<exists>y \<in> set (inorder t). v < y
               then \<exists>w. (b, w) \<in> set (nodes t) \<and> v < w \<and> (\<forall>y \<in> set (inorder t). v < y \<longrightarrow> w \<le> y)
               else b = anchor"
  proof (cases "nodes_above v t")
    case Nil
    then have "\<not> (\<exists>y \<in> set (inorder t). v < y)"
      by (auto simp: nodes_above_def inorder_def filter_empty_conv)
    then show ?thesis using Nil by (simp add: b_def)
  next
    case (Cons c rest)
    then have c: "nodes_above v t = (fst c, snd c) # rest" "b = fst c" by (simp_all add: b_def)
    from above_step[OF assms(3) c(1)]
    have "(b, snd c) \<in> set (nodes t)" "v < snd c" "\<forall>y \<in> set (inorder t). v < y \<longrightarrow> snd c \<le> y"
      using c(2) by simp_all
    moreover then have "\<exists>y \<in> set (inorder t). v < y" using nodes_inorder by fastforce
    ultimately show ?thesis by auto
  qed
  define d where "d = (if nodes_below v t = [] then anchor else fst (last (nodes_below v t)))"
  have pv: "prev_node h a (Some anchor) = Some d"
    using prev_node_below[OF assms] d_def by simp
  have p1: "decr h \<lparr>it_node = Some a, it_root = tree s\<rparr> =
              Some \<lparr>it_node = Some d, it_root = tree s\<rparr>"
    using pv assms(2) by (simp add: decr_def)
  have p2: "l \<noteq> Tip \<longrightarrow> (\<exists>w. (d, w) \<in> set (nodes l) \<and> (\<forall>y \<in> set (inorder l). y \<le> w))"
  proof
    assume l: "l \<noteq> Tip"
    from below_left_subtree[OF assms(3,4) l] have "d = fst (last (nodes l))"
      by (simp add: d_def)
    then have "(d, snd (last (nodes l))) \<in> set (nodes l)"
      using bst_last_greatest(1)[OF blr(1) l] by simp
    then show "\<exists>w. (d, w) \<in> set (nodes l) \<and> (\<forall>y \<in> set (inorder l). y \<le> w)"
      using bst_last_greatest(2)[OF blr(1) l] by blast
  qed
  have p3: "l = Tip \<longrightarrow> d = last (anchor # candidates_prev v t)"
  proof
    assume l: "l = Tip"
    then have "prev_shape v t anchor = Some d"
      using prev_node_no_left[OF assms(1,2), of a v r] assms(4) pv by simp
    then show "d = last (anchor # candidates_prev v t)" by (rule prev_shape_candidates)
  qed
  have p4: "if \<exists>y \<in> set (inorder t). y < v
               then \<exists>w. (d, w) \<in> set (nodes t) \<and> w < v \<and> (\<forall>y \<in> set (inorder t). y < v \<longrightarrow> y \<le> w)
               else d = anchor"
  proof (cases "nodes_below v t = []")
    case True
    then have "\<not> (\<exists>y \<in> set (inorder t). y < v)"
      by (auto simp: nodes_below_def inorder_def filter_empty_conv)
    then show ?thesis using True by (simp add: d_def)
  next
    case False
    then obtain rest c where rc: "nodes_below v t = rest @ [c]" by (metis append_butlast_last_id)
    then have c: "nodes_below v t = rest @ [(fst c, snd c)]" "d = fst c" by (simp_all add: d_def)
    from below_step[OF assms(3) c(1)]
    have "(d, snd c) \<in> set (nodes t)" "snd c < v" "\<forall>y \<in> set (inorder t). y < v \<longrightarrow> y \<le> snd c"
      using c(2) by simp_all
    moreover then have "\<exists>y \<in> set (inorder t). y < v" using nodes_inorder by fastforce
    ultimately show ?thesis by auto
  qed
  from n1 n2 n3 n4 p1 p2 p3 p4 show ?thesis by blast
qed

theorem cursor_stepping_witness:
  "incr store3 \<lparr>it_node = Some 4, it_root = Some 6\<rparr> = Some \<lparr>it_node = Some 8, it_root = Some 6\<rparr> \<and>
   decr store3 \<lparr>it_node = Some 4, it_root = Some 6\<rparr> = Some \<lparr>it_node = Some 6, it_root = Some 6\<rparr>"
proof -
  have t: "tree set3 = Some 6" by (simp add: set3_def)
  have sub: "Nd 4 Tip 3 Tip \<in> set (subtrees shape3)" by (simp add: shape3_def)
  from cursor_stepping[OF version_store3 t bst_shape3 sub]
  show ?thesis by (simp add: t shape3_def)
qed

section \<open>Traversal\<close>

lemma collect_end: "collect h (end_it s) (end_it s) = Some []"
  by (subst collect.simps) (simp add: it_eq_def)

lemma collect_from:
  assumes v: "version h s t" and anchor: "tree s = Some anchor" and b: "bst t"
  shows "nodes_above x t = ys \<Longrightarrow> (a, x) \<in> set (nodes t) \<Longrightarrow>
           collect h \<lparr>it_node = Some a, it_root = tree s\<rparr> (end_it s) = Some (x # map snd ys)"
proof (induction ys arbitrary: a x)
  case Nil
  from nodes_subtrees[OF Nil.prems(2)] obtain l r where sub: "Nd a l x r \<in> set (subtrees t)"
    by auto
  have ne: "a \<noteq> anchor"
    using version_anchor_not_node[OF v anchor] nodes_addrs[OF Nil.prems(2)] by auto
  have st: "star h \<lparr>it_node = Some a, it_root = tree s\<rparr> = Some x"
    using version_get_value[OF v Nil.prems(2)] by (simp add: star_def)
  have "next_node h a (Some anchor) = Some anchor"
    using next_node_above[OF v anchor b sub] Nil.prems(1) by simp
  then have "incr h \<lparr>it_node = Some a, it_root = tree s\<rparr> = Some (end_it s)"
    using anchor by (simp add: incr_def end_it_def)
  then show ?case
    using ne st anchor collect_end[of h s]
    by (subst collect.simps) (simp add: it_eq_def end_it_def)
next
  case (Cons c rest)
  from nodes_subtrees[OF Cons.prems(2)] obtain l r where sub: "Nd a l x r \<in> set (subtrees t)"
    by auto
  have ne: "a \<noteq> anchor"
    using version_anchor_not_node[OF v anchor] nodes_addrs[OF Cons.prems(2)] by auto
  have st: "star h \<lparr>it_node = Some a, it_root = tree s\<rparr> = Some x"
    using version_get_value[OF v Cons.prems(2)] by (simp add: star_def)
  have ab: "nodes_above x t = (fst c, snd c) # rest" using Cons.prems(1) by simp
  have "next_node h a (Some anchor) = Some (fst c)"
    using next_node_above[OF v anchor b sub] ab by simp
  then have inc: "incr h \<lparr>it_node = Some a, it_root = tree s\<rparr> =
                    Some \<lparr>it_node = Some (fst c), it_root = tree s\<rparr>"
    using anchor by (simp add: incr_def)
  from above_step[OF b ab] have c: "nodes_above (snd c) t = rest" "(fst c, snd c) \<in> set (nodes t)"
    by simp_all
  have "collect h \<lparr>it_node = Some (fst c), it_root = tree s\<rparr> (end_it s) =
          Some (snd c # map snd rest)"
    using Cons.IH[OF c] .
  then show ?case
    using ne st inc anchor
    by (subst collect.simps) (simp add: it_eq_def end_it_def)
qed

lemma begin_it_rep:
  assumes v: "version h s t"
  shows "begin_it h s =
           Some (if t = Tip then end_it s
                 else \<lparr>it_node = Some (fst (hd (nodes t))), it_root = tree s\<rparr>)"
proof (cases "tree s")
  case None
  then show ?thesis using version_NoneD[OF v] by (simp add: begin_it_def)
next
  case (Some anchor)
  from version_SomeD[OF v Some] obtain an where an: "deref h anchor = Some an"
    "rep h (left an) t"
    by auto
  show ?thesis
  proof (cases t)
    case Tip
    then have "left an = None" using an(2) by simp
    then show ?thesis using Some an Tip by (simp add: begin_it_def)
  next
    case (Nd c l w r)
    then have la: "left an = Some c" using an(2) by simp
    have "min_node h c = Some (fst (hd (nodes t)))"
      using min_node_rep[of h c t] an(2) la by simp
    then have "min_node h anchor = Some (fst (hd (nodes t)))"
      using an la by (subst min_node.simps) simp
    then show ?thesis using Some an la Nd by (simp add: begin_it_def)
  qed
qed

lemma traversal_inorder:
  assumes v: "version h s t" and b: "bst t"
  shows "traversal h s = Some (inorder t)"
proof (cases t)
  case Tip
  then show ?thesis using begin_it_rep[OF v] collect_end[of h s] by (simp add: traversal_def)
next
  case (Nd c l w r)
  then have ne: "t \<noteq> Tip" by simp
  then obtain anchor where anchor: "tree s = Some anchor"
    using v by (cases "tree s") (auto simp: version_def)
  from ne obtain x xs where x: "nodes t = x # xs" by (cases "nodes t") (auto simp: nodes_Nil)
  from bst_sorted_nodes[OF b] x have "\<forall>y \<in> set xs. snd x < snd y" by simp
  then have "nodes_above (snd x) t = xs" using x by (auto simp: nodes_above_def filter_id_conv)
  moreover have "(fst x, snd x) \<in> set (nodes t)" using x by simp
  ultimately have "collect h \<lparr>it_node = Some (fst x), it_root = tree s\<rparr> (end_it s) =
                     Some (snd x # map snd xs)"
    using collect_from[OF v anchor b] by blast
  then show ?thesis
    using begin_it_rep[OF v] ne x by (simp add: traversal_def inorder_def)
qed

section \<open>The ends of the range\<close>

text \<open>
  C7. On a handle whose cells form a search tree and whose counter is the number of
  elements: \<open>begin_it\<close> equals \<open>end_it\<close> exactly when \<open>empty\<close> holds; when the set is not
  empty, decrementing the end cursor gives a cursor at a node holding the greatest
  element, and incrementing a cursor at any node holding the greatest element gives
  the end cursor.
\<close>

theorem boundary_cursors:
  assumes "version h s t" and "bst t" and "set_size s = length (inorder t)"
  shows "(\<exists>b. begin_it h s = Some b \<and> (it_eq b (end_it s) \<longleftrightarrow> empty s)) \<and>
         (\<not> empty s \<longrightarrow>
            (\<exists>a m. decr h (end_it s) = Some \<lparr>it_node = Some a, it_root = tree s\<rparr> \<and>
                   (a, m) \<in> set (nodes t) \<and> (\<forall>y \<in> set (inorder t). y \<le> m))) \<and>
         (\<forall>a m. (a, m) \<in> set (nodes t) \<and> (\<forall>y \<in> set (inorder t). y \<le> m) \<longrightarrow>
            incr h \<lparr>it_node = Some a, it_root = tree s\<rparr> = Some (end_it s))"
proof -
  have em: "empty s \<longleftrightarrow> t = Tip"
    using assms(3) by (simp add: empty_def inorder_def nodes_Nil)
  have 1: "\<exists>b. begin_it h s = Some b \<and> (it_eq b (end_it s) \<longleftrightarrow> empty s)"
  proof (cases "t = Tip")
    case True
    then show ?thesis using begin_it_rep[OF assms(1)] em by (simp add: it_eq_def)
  next
    case False
    then obtain anchor where anchor: "tree s = Some anchor"
      using assms(1) by (cases "tree s") (auto simp: version_def)
    have "hd (nodes t) \<in> set (nodes t)" using False by (simp add: nodes_Nil)
    then have "fst (hd (nodes t)) \<in> set (addrs t)" by (simp add: addrs_def)
    then have "fst (hd (nodes t)) \<noteq> anchor"
      using version_anchor_not_node[OF assms(1) anchor] by auto
    then show ?thesis
      using begin_it_rep[OF assms(1)] False em anchor by (simp add: it_eq_def end_it_def)
  qed
  have 2: "\<not> empty s \<longrightarrow>
            (\<exists>a m. decr h (end_it s) = Some \<lparr>it_node = Some a, it_root = tree s\<rparr> \<and>
                   (a, m) \<in> set (nodes t) \<and> (\<forall>y \<in> set (inorder t). y \<le> m))"
  proof
    assume "\<not> empty s"
    then have ne: "t \<noteq> Tip" using em by simp
    then obtain anchor where anchor: "tree s = Some anchor"
      using assms(1) by (cases "tree s") (auto simp: version_def)
    from version_SomeD[OF assms(1) anchor] obtain an where an: "deref h anchor = Some an"
      "rep h (left an) t"
      by auto
    from ne obtain c l w r where t: "t = Nd c l w r" by (cases t) auto
    then have la: "left an = Some c" using an(2) by simp
    have "max_node h c = Some (fst (last (nodes t)))"
      using max_node_rep[of h c t] an(2) la by simp
    then have "prev_node h anchor (Some anchor) = Some (fst (last (nodes t)))"
      using an la by (simp add: prev_node_def)
    then have "decr h (end_it s) = Some \<lparr>it_node = Some (fst (last (nodes t))), it_root = tree s\<rparr>"
      using anchor by (simp add: decr_def end_it_def)
    moreover have "(fst (last (nodes t)), snd (last (nodes t))) \<in> set (nodes t)"
      using bst_last_greatest(1)[OF assms(2) ne] by simp
    ultimately show "\<exists>a m. decr h (end_it s) = Some \<lparr>it_node = Some a, it_root = tree s\<rparr> \<and>
                   (a, m) \<in> set (nodes t) \<and> (\<forall>y \<in> set (inorder t). y \<le> m)"
      using bst_last_greatest(2)[OF assms(2) ne] by blast
  qed
  have 3: "\<forall>a m. (a, m) \<in> set (nodes t) \<and> (\<forall>y \<in> set (inorder t). y \<le> m) \<longrightarrow>
            incr h \<lparr>it_node = Some a, it_root = tree s\<rparr> = Some (end_it s)"
  proof (intro allI impI)
    fix a m
    assume am: "(a, m) \<in> set (nodes t) \<and> (\<forall>y \<in> set (inorder t). y \<le> m)"
    then have ne: "t \<noteq> Tip" by auto
    then obtain anchor where anchor: "tree s = Some anchor"
      using assms(1) by (cases "tree s") (auto simp: version_def)
    from am have "(a, m) \<in> set (nodes t)" by simp
    from nodes_subtrees[OF this] obtain l r where sub: "Nd a l m r \<in> set (subtrees t)" by auto
    have "nodes_above m t = []" using am by (intro above_none) simp
    then have "next_node h a (Some anchor) = Some anchor"
      using next_node_above[OF assms(1) anchor assms(2) sub] by simp
    then show "incr h \<lparr>it_node = Some a, it_root = tree s\<rparr> = Some (end_it s)"
      using anchor by (simp add: incr_def end_it_def)
  qed
  from 1 2 3 show ?thesis by blast
qed

theorem boundary_cursors_witness:
  "(\<exists>b. begin_it store3 set3 = Some b \<and> \<not> it_eq b (end_it set3)) \<and>
   decr store3 (end_it set3) = Some \<lparr>it_node = Some 7, it_root = Some 6\<rparr> \<and>
   incr store3 \<lparr>it_node = Some 7, it_root = Some 6\<rparr> = Some (end_it set3)"
proof -
  have sz: "set_size set3 = length (inorder shape3)" by (simp add: set3_def shape3_def)
  have ne: "\<not> empty set3" by (simp add: empty_def set3_def)
  note th = boundary_cursors[OF version_store3 bst_shape3 sz]
  from th ne have 1: "\<exists>b. begin_it store3 set3 = Some b \<and> \<not> it_eq b (end_it set3)" by blast
  from th ne obtain a m where am:
    "decr store3 (end_it set3) = Some \<lparr>it_node = Some a, it_root = tree set3\<rparr>"
    "(a, m) \<in> set (nodes shape3)" "\<forall>y \<in> set (inorder shape3). y \<le> m"
    by blast
  from am(2,3) have "a = 7" by (auto simp: shape3_def)
  then have 2: "decr store3 (end_it set3) = Some \<lparr>it_node = Some 7, it_root = Some 6\<rparr>"
    using am(1) by (simp add: set3_def)
  have "(7, 8) \<in> set (nodes shape3) \<and> (\<forall>y \<in> set (inorder shape3). y \<le> 8)"
    by (simp add: shape3_def)
  with th have "incr store3 \<lparr>it_node = Some 7, it_root = tree set3\<rparr> = Some (end_it set3)"
    by blast
  then have 3: "incr store3 \<lparr>it_node = Some 7, it_root = Some 6\<rparr> = Some (end_it set3)"
    by (simp add: set3_def)
  from 1 2 3 show ?thesis by blast
qed

section \<open>Insertion\<close>

lemma deref_make_shared:
  "deref (h @ [c]) (length h) = Some c"
  by (simp add: deref_def)

lemma insert_impl_rep:
  "rep h p t \<Longrightarrow>
     \<exists>h' q t'. insert_impl h p x = Some (h', Some q, Some (length h)) \<and>
       store_le h h' \<and> rep h' (Some q) t' \<and> path_copy (length h) x t t' \<and>
       length h' = length h + Suc (length (ins_path x t)) \<and>
       (length h, x) \<in> set (nodes t')"
proof (induction t arbitrary: p)
  case Tip
  let ?c = "\<lparr>left = None, right = None, val = Some x\<rparr>"
  have "insert_impl h p x = Some (h @ [?c], Some (length h), Some (length h))"
    using Tip by (subst insert_impl.simps) (simp add: make_shared_def)
  moreover have "rep (h @ [?c]) (Some (length h)) (Nd (length h) Tip x Tip)"
    by (simp add: deref_make_shared)
  moreover have "path_copy (length h) x Tip (Nd (length h) Tip x Tip)" by simp
  ultimately show ?case
    by (intro exI[of _ "h @ [?c]"] exI[of _ "length h"] exI[of _ "Nd (length h) Tip x Tip"]) simp
next
  case (Nd a l v r)
  from rep_NdD[OF Nd.prems] obtain n where n: "p = Some a" "deref h a = Some n" "val n = Some v"
    "rep h (left n) l" "rep h (right n) r"
    by auto
  have gv: "get_value h a = Some v" using n by (simp add: get_value_def)
  show ?case
  proof (cases "v < x")
    case True
    from Nd.IH(2)[OF n(5)] obtain h1 q r' where ih:
      "insert_impl h (right n) x = Some (h1, Some q, Some (length h))"
      "store_le h h1" "rep h1 (Some q) r'" "path_copy (length h) x r r'"
      "length h1 = length h + Suc (length (ins_path x r))"
      "(length h, x) \<in> set (nodes r')"
      by blast
    let ?c = "\<lparr>left = left n, right = Some q, val = Some v\<rparr>"
    let ?h2 = "h1 @ [?c]"
    let ?t' = "Nd (length h1) l v r'"
    have le2: "store_le h ?h2" using store_le_trans[OF ih(2) store_le_append] .
    have "insert_impl h p x = Some (?h2, Some (length h1), Some (length h))"
      using n gv True ih(1) by (subst insert_impl.simps) (simp add: make_shared_def)
    moreover have "rep ?h2 (Some (length h1)) ?t'"
      using store_le_rep[OF le2 n(4)] store_le_rep[OF store_le_append ih(3)]
      by (simp add: deref_make_shared)
    moreover have "path_copy (length h) x (Nd a l v r) ?t'"
      using True ih(4) store_le_length[OF ih(2)] by simp
    moreover have "length ?h2 = length h + Suc (length (ins_path x (Nd a l v r)))"
      using True ih(5) by simp
    ultimately show ?thesis using le2 ih(6)
      by (intro exI[of _ ?h2] exI[of _ "length h1"] exI[of _ ?t']) simp
  next
    case False
    from Nd.IH(1)[OF n(4)] obtain h1 q l' where ih:
      "insert_impl h (left n) x = Some (h1, Some q, Some (length h))"
      "store_le h h1" "rep h1 (Some q) l'" "path_copy (length h) x l l'"
      "length h1 = length h + Suc (length (ins_path x l))"
      "(length h, x) \<in> set (nodes l')"
      by blast
    let ?c = "\<lparr>left = Some q, right = right n, val = Some v\<rparr>"
    let ?h2 = "h1 @ [?c]"
    let ?t' = "Nd (length h1) l' v r"
    have le2: "store_le h ?h2" using store_le_trans[OF ih(2) store_le_append] .
    have "insert_impl h p x = Some (?h2, Some (length h1), Some (length h))"
      using n gv False ih(1) by (subst insert_impl.simps) (simp add: make_shared_def)
    moreover have "rep ?h2 (Some (length h1)) ?t'"
      using store_le_rep[OF le2 n(5)] store_le_rep[OF store_le_append ih(3)]
      by (simp add: deref_make_shared)
    moreover have "path_copy (length h) x (Nd a l v r) ?t'"
      using False ih(4) store_le_length[OF ih(2)] by simp
    moreover have "length ?h2 = length h + Suc (length (ins_path x (Nd a l v r)))"
      using False ih(5) by simp
    ultimately show ?thesis using le2 ih(6)
      by (intro exI[of _ ?h2] exI[of _ "length h1"] exI[of _ ?t']) simp
  qed
qed

subsection \<open>Properties of a copied path\<close>

lemma insort_left:
  fixes x :: "'a::linorder"
  shows "x \<le> v \<Longrightarrow> insort x (xs @ v # ys) = insort x xs @ v # ys"
  by (induction xs) auto

lemma insort_right:
  fixes x :: "'a::linorder"
  shows "\<forall>y \<in> set xs. y < x \<Longrightarrow> insort x (xs @ ys) = xs @ insort x ys"
  by (induction xs) auto

lemma path_copy_inorder:
  "bst t \<Longrightarrow> x \<notin> set (inorder t) \<Longrightarrow> path_copy n x t t' \<Longrightarrow>
     inorder t' = insort x (inorder t)"
proof (induction t arbitrary: t')
  case Tip
  then show ?case by (cases t') auto
next
  case (Nd a l v r)
  from Nd.prems(3) obtain b l' r' where t': "t' = Nd b l' v r'"
    "if v < x then l' = l \<and> path_copy n x r r' else r' = r \<and> path_copy n x l l'"
    by (cases t') auto
  from Nd.prems(1) have b: "bst l" "bst r" "\<forall>y \<in> set (inorder l). y < v" by auto
  from Nd.prems(2) have nx: "x \<noteq> v" "x \<notin> set (inorder l)" "x \<notin> set (inorder r)" by auto
  show ?case
  proof (cases "v < x")
    case True
    then have "inorder r' = insort x (inorder r)" using t'(2) Nd.IH(2)[OF b(2) nx(3)] by simp
    moreover have "\<forall>y \<in> set (inorder l). y < x" using b(3) True by auto
    moreover have "\<not> x \<le> v" using True by simp
    ultimately show ?thesis using t' True insort_right[of "inorder l" x "v # inorder r"]
      by simp
  next
    case False
    then have "inorder l' = insort x (inorder l)" using t'(2) Nd.IH(1)[OF b(1) nx(2)] by simp
    moreover have "x \<le> v" using False by simp
    ultimately show ?thesis using t' False insort_left[of x v "inorder l" "inorder r"] by simp
  qed
qed

lemma path_copy_bst:
  "bst t \<Longrightarrow> x \<notin> set (inorder t) \<Longrightarrow> path_copy n x t t' \<Longrightarrow> bst t'"
proof (induction t arbitrary: t')
  case Tip
  then show ?case by (cases t') auto
next
  case (Nd a l v r)
  from Nd.prems(3) obtain b l' r' where t': "t' = Nd b l' v r'"
    "if v < x then l' = l \<and> path_copy n x r r' else r' = r \<and> path_copy n x l l'"
    by (cases t') auto
  from Nd.prems(1) have b: "bst l" "bst r" "\<forall>y \<in> set (inorder l). y < v"
    "\<forall>y \<in> set (inorder r). v < y"
    by auto
  from Nd.prems(2) have nx: "x \<noteq> v" "x \<notin> set (inorder l)" "x \<notin> set (inorder r)" by auto
  show ?case
  proof (cases "v < x")
    case True
    then have pc: "l' = l" "path_copy n x r r'" using t'(2) by simp_all
    have "inorder r' = insort x (inorder r)" using path_copy_inorder[OF b(2) nx(3) pc(2)] .
    then have "set (inorder r') = insert x (set (inorder r))" by (simp add: set_insort_key)
    then show ?thesis using t'(1) pc b True Nd.IH(2)[OF b(2) nx(3) pc(2)] by auto
  next
    case False
    then have pc: "r' = r" "path_copy n x l l'" using t'(2) by simp_all
    have "inorder l' = insort x (inorder l)" using path_copy_inorder[OF b(1) nx(2) pc(2)] .
    then have "set (inorder l') = insert x (set (inorder l))" by (simp add: set_insort_key)
    moreover have "x < v" using False nx(1) by simp
    ultimately show ?thesis using t'(1) pc b Nd.IH(1)[OF b(1) nx(2) pc(2)] by auto
  qed
qed

lemma path_copy_addrs:
  "path_copy n x t t' \<Longrightarrow> a \<in> set (addrs t') \<Longrightarrow> a \<in> set (addrs t) \<or> n \<le> a"
proof (induction t arbitrary: t')
  case Tip
  then show ?case by (cases t') auto
next
  case (Nd c l v r)
  from Nd.prems(1) obtain b l' r' where t': "t' = Nd b l' v r'" "n \<le> b"
    "if v < x then l' = l \<and> path_copy n x r r' else r' = r \<and> path_copy n x l l'"
    by (cases t') auto
  show ?case
  proof (cases "v < x")
    case True
    then show ?thesis using t' Nd.prems(2) Nd.IH(2)[of r'] by auto
  next
    case False
    then show ?thesis using t' Nd.prems(2) Nd.IH(1)[of l'] by auto
  qed
qed

lemma path_copy_path:
  "path_copy n x t t' \<Longrightarrow>
     length (ins_path x t') = Suc (length (ins_path x t)) \<and>
     (\<forall>a \<in> set (ins_path x t'). n \<le> a) \<and>
     (last (ins_path x t'), x) \<in> set (nodes t') \<and>
     (\<forall>u \<in> set (subtrees t'). u \<in> set (subtrees t) \<or>
        (\<exists>a l v r. u = Nd a l v r \<and> a \<in> set (ins_path x t')))"
proof (induction t arbitrary: t')
  case Tip
  then show ?case by (cases t') auto
next
  case (Nd c l v r)
  from Nd.prems(1) obtain b l' r' where t': "t' = Nd b l' v r'" "n \<le> b"
    "if v < x then l' = l \<and> path_copy n x r r' else r' = r \<and> path_copy n x l l'"
    by (cases t') auto
  show ?case
  proof (cases "v < x")
    case True
    then have pc: "l' = l" "path_copy n x r r'" using t'(3) by simp_all
    from Nd.IH(2)[OF pc(2)] have ih: "length (ins_path x r') = Suc (length (ins_path x r))"
      "\<forall>a \<in> set (ins_path x r'). n \<le> a"
      "(last (ins_path x r'), x) \<in> set (nodes r')"
      "\<forall>u \<in> set (subtrees r'). u \<in> set (subtrees r) \<or>
        (\<exists>a l v r. u = Nd a l v r \<and> a \<in> set (ins_path x r'))"
      by auto
    have ne: "ins_path x r' \<noteq> []" using ih(1) by auto
    show ?thesis using t'(1,2) pc(1) True ih ne by auto
  next
    case False
    then have pc: "r' = r" "path_copy n x l l'" using t'(3) by simp_all
    from Nd.IH(1)[OF pc(2)] have ih: "length (ins_path x l') = Suc (length (ins_path x l))"
      "\<forall>a \<in> set (ins_path x l'). n \<le> a"
      "(last (ins_path x l'), x) \<in> set (nodes l')"
      "\<forall>u \<in> set (subtrees l'). u \<in> set (subtrees l) \<or>
        (\<exists>a l v r. u = Nd a l v r \<and> a \<in> set (ins_path x l'))"
      by auto
    have ne: "ins_path x l' \<noteq> []" using ih(1) by auto
    show ?thesis using t'(1,2) pc(1) False ih ne by auto
  qed
qed

lemma ins_path_height: "length (ins_path x t) \<le> height t"
  by (induction t) auto

lemma path_copy_mono: "path_copy n x t t' \<Longrightarrow> m \<le> n \<Longrightarrow> path_copy m x t t'"
proof (induction t arbitrary: t')
  case Tip
  then show ?case by (cases t') auto
next
  case (Nd a l v r)
  then show ?case by (cases t'; cases "v < x") auto
qed

subsection \<open>The whole operation\<close>

lemma tree_init_version:
  assumes "version h s t"
  shows "\<exists>h1 s1 anchor. tree_init h s = (h1, s1) \<and> store_le h h1 \<and> version h1 s1 t \<and>
           tree s1 = Some anchor \<and> set_size s1 = set_size s \<and>
           (tree s \<noteq> None \<longrightarrow> h1 = h \<and> s1 = s) \<and>
           (tree s = None \<longrightarrow> h1 = h @ [new_bNode] \<and> anchor = length h)"
proof (cases "tree s")
  case None
  then have "t = Tip" using version_NoneD[OF assms] by simp
  then have "version (h @ [new_bNode]) (s\<lparr>tree := Some (length h)\<rparr>) t"
    by (simp add: version_def deref_make_shared new_bNode_def)
  then show ?thesis using None by (simp add: tree_init_def make_shared_def)
next
  case (Some a)
  then show ?thesis using assms by (simp add: tree_init_def)
qed

lemma insert_value_present:
  assumes "version h s t" "bst t" "x \<in> set (inorder t)"
  shows "\<exists>a. (a, x) \<in> set (nodes t) \<and>
           insert_value h s x = Some (h, s, \<lparr>it_node = Some a, it_root = tree s\<rparr>, False)"
proof -
  from assms(3) have "t \<noteq> Tip" by auto
  then obtain anchor where anchor: "tree s = Some anchor"
    using assms(1) by (cases "tree s") (auto simp: version_def)
  from find_value_rep[OF assms(1,2), of x] assms(3) obtain a where a:
    "(a, x) \<in> set (nodes t)" "find_value h s x = Some \<lparr>it_node = Some a, it_root = tree s\<rparr>"
    by auto
  have "a \<noteq> anchor"
    using version_anchor_not_node[OF assms(1) anchor] nodes_addrs[OF a(1)] by auto
  then have "insert_value h s x = Some (h, s, \<lparr>it_node = Some a, it_root = tree s\<rparr>, False)"
    using anchor a(2) by (simp add: insert_value_def tree_init_def it_eq_def end_it_def)
  then show ?thesis using a(1) by blast
qed

lemma insert_value_absent:
  assumes "version h s t" "bst t" "x \<notin> set (inorder t)"
  shows "\<exists>h' s' t' leaf anchor'.
           insert_value h s x = Some (h', s', \<lparr>it_node = Some leaf, it_root = tree s'\<rparr>, True) \<and>
           store_le h h' \<and> version h' s' t' \<and> path_copy (length h) x t t' \<and>
           (leaf, x) \<in> set (nodes t') \<and> length h \<le> leaf \<and>
           tree s' = Some anchor' \<and> length h \<le> anchor' \<and>
           set_size s' = Suc (set_size s) \<and>
           length h' = length h + (if tree s = None then 1 else 0) + 1 + Suc (length (ins_path x t)) \<and>
           (tree s = None \<longrightarrow> deref h' (length h) = Some new_bNode)"
proof -
  from tree_init_version[OF assms(1)] obtain h1 s1 anchor where ti:
    "tree_init h s = (h1, s1)" "store_le h h1" "version h1 s1 t" "tree s1 = Some anchor"
    "set_size s1 = set_size s" "tree s \<noteq> None \<longrightarrow> h1 = h \<and> s1 = s"
    "tree s = None \<longrightarrow> h1 = h @ [new_bNode] \<and> anchor = length h"
    by (elim exE conjE) (rule that)
  have fnd: "find_value h1 s1 x = Some (end_it s1)"
    using find_value_rep[OF ti(3) assms(2), of x] assms(3) by simp
  let ?h2 = "h1 @ [new_bNode]"
  let ?tmp = "length h1"
  from version_SomeD[OF ti(3,4)] obtain an where an: "deref h1 anchor = Some an"
    "rep h1 (left an) t"
    by auto
  have an2: "deref ?h2 anchor = Some an" using store_le_deref[OF store_le_append an(1)] .
  have rep2: "rep ?h2 (left an) t" using store_le_rep[OF store_le_append an(2)] .
  from insert_impl_rep[OF rep2, of x] obtain h3 q t' where ii:
    "insert_impl ?h2 (left an) x = Some (h3, Some q, Some (length ?h2))"
    "store_le ?h2 h3" "rep h3 (Some q) t'" "path_copy (length ?h2) x t t'"
    "length h3 = length ?h2 + Suc (length (ins_path x t))"
    "(length ?h2, x) \<in> set (nodes t')"
    by (elim exE conjE) (rule that)
  have len3: "?tmp < length h3" using store_le_length[OF ii(2)] by simp
  have cell: "h3 ! ?tmp = new_bNode" using store_le_nth[OF ii(2), of ?tmp] by simp
  let ?h4 = "h3[?tmp := (h3 ! ?tmp)\<lparr>left := Some q\<rparr>]"
  have sl: "set_left h3 ?tmp (Some q) = Some ?h4" using len3 by (simp add: set_left_def)
  let ?s' = "\<lparr>tree = Some ?tmp, set_size = set_size s1 + 1\<rparr>"
  have res: "insert_value h s x =
               Some (?h4, ?s', \<lparr>it_node = Some (length ?h2), it_root = tree ?s'\<rparr>, True)"
    using ti(1,4) fnd an2 ii(1) sl
    by (simp add: insert_value_def it_eq_def make_shared_def)
  have le14: "store_le h1 ?h4"
    using store_le_set_left[OF store_le_trans[OF store_le_append ii(2)] _ sl] by simp
  have le: "store_le h ?h4" using store_le_trans[OF ti(2) le14] .
  have notin: "?tmp \<notin> set (addrs t')"
  proof
    assume "?tmp \<in> set (addrs t')"
    from path_copy_addrs[OF ii(4) this] have "?tmp \<in> set (addrs t)" by simp
    from rep_addr_bound[OF an(2) this] show False by simp
  qed
  have rep4: "rep ?h4 (Some q) t'" using rep_update_other[OF ii(3) notin] .
  have "deref ?h4 ?tmp = Some (new_bNode\<lparr>left := Some q\<rparr>)"
    using len3 cell by (simp add: deref_def)
  then have ver: "version ?h4 ?s' t'" using rep4 by (simp add: version_def new_bNode_def)
  have pc: "path_copy (length h) x t t'"
    using path_copy_mono[OF ii(4)] store_le_length[OF ti(2)] by simp
  have len4: "length ?h4 = length h + (if tree s = None then 1 else 0) + 1 + Suc (length (ins_path x t))"
    using ii(5) ti(6,7) by (cases "tree s") auto
  have lazy: "tree s = None \<longrightarrow> deref ?h4 (length h) = Some new_bNode"
  proof
    assume "tree s = None"
    then have h1: "h1 = h @ [new_bNode]" using ti(7) by simp
    then have "deref h1 (length h) = Some new_bNode" by (simp add: deref_make_shared)
    then show "deref ?h4 (length h) = Some new_bNode" using store_le_deref[OF le14] by blast
  qed
  have bounds: "length h \<le> length ?h2" "length h \<le> ?tmp"
    using store_le_length[OF ti(2)] by simp_all
  show ?thesis
    using res le ver pc ii(6) bounds ti(5) len4 lazy
    by (intro exI[of _ ?h4] exI[of _ ?s'] exI[of _ t'] exI[of _ "length ?h2"] exI[of _ ?tmp]) simp
qed

lemma bst_node_unique:
  assumes "bst t" "(a, x) \<in> set (nodes t)" "(b, x) \<in> set (nodes t)"
  shows "a = b"
proof -
  have "distinct (map snd (nodes t))" using bst_distinct[OF assms(1)] by (simp add: inorder_def)
  then have "inj_on snd (set (nodes t))" by (simp add: distinct_map)
  from inj_onD[OF this _ assms(2,3)] show ?thesis by simp
qed

lemma copy_set_id [simp]: "copy_set s = s"
  by (simp add: copy_set_def)

lemma swap_sets_eq: "swap_sets s other = (other, s)"
  by (simp add: swap_sets_def)

text \<open>
  C2. On a handle whose cells form a search tree: when \<open>x\<close> is an element,
  \<open>insert_value\<close> returns the cursor of the node that holds \<open>x\<close> with \<open>False\<close>, and the
  same store and handle, so elements and counter are unchanged. When \<open>x\<close> is not an
  element, it returns \<open>True\<close> with a cursor at a cell that is new in the store and holds
  \<open>x\<close>; the new handle has an anchor and a search tree whose elements are the old ones and
  \<open>x\<close>; the counter is one more; a handle that had no anchor got one, as the first new
  cell; and inserting \<open>x\<close> once more returns that cursor with \<open>False\<close> and changes nothing.
\<close>

theorem insert_correct:
  assumes "version h s t" and "bst t"
  shows "(x \<in> set (inorder t) \<longrightarrow>
            (\<exists>a. (a, x) \<in> set (nodes t) \<and>
                 insert_value h s x =
                   Some (h, s, \<lparr>it_node = Some a, it_root = tree s\<rparr>, False))) \<and>
         (x \<notin> set (inorder t) \<longrightarrow>
            (\<exists>h' s' t' leaf.
                 insert_value h s x =
                   Some (h', s', \<lparr>it_node = Some leaf, it_root = tree s'\<rparr>, True) \<and>
                 version h' s' t' \<and> bst t' \<and>
                 set (inorder t') = insert x (set (inorder t)) \<and>
                 (leaf, x) \<in> set (nodes t') \<and> length h \<le> leaf \<and> get_value h' leaf = Some x \<and>
                 set_size s' = set_size s + 1 \<and> tree s' \<noteq> None \<and>
                 (tree s = None \<longrightarrow> deref h' (length h) = Some new_bNode) \<and>
                 insert_value h' s' x =
                   Some (h', s', \<lparr>it_node = Some leaf, it_root = tree s'\<rparr>, False)))"
proof (intro conjI impI)
  assume "x \<in> set (inorder t)"
  then show "\<exists>a. (a, x) \<in> set (nodes t) \<and>
                 insert_value h s x =
                   Some (h, s, \<lparr>it_node = Some a, it_root = tree s\<rparr>, False)"
    using insert_value_present[OF assms] by simp
next
  assume nx: "x \<notin> set (inorder t)"
  from insert_value_absent[OF assms nx] obtain h' s' t' leaf anchor' where r:
    "insert_value h s x = Some (h', s', \<lparr>it_node = Some leaf, it_root = tree s'\<rparr>, True)"
    "store_le h h'" "version h' s' t'" "path_copy (length h) x t t'"
    "(leaf, x) \<in> set (nodes t')" "length h \<le> leaf"
    "tree s' = Some anchor'" "length h \<le> anchor'"
    "set_size s' = Suc (set_size s)"
    "length h' = length h + (if tree s = None then 1 else 0) + 1 + Suc (length (ins_path x t))"
    "tree s = None \<longrightarrow> deref h' (length h) = Some new_bNode"
    by (elim exE conjE) (rule that)
  have b': "bst t'" using path_copy_bst[OF assms(2) nx r(4)] .
  have "inorder t' = insort x (inorder t)" using path_copy_inorder[OF assms(2) nx r(4)] .
  then have els: "set (inorder t') = insert x (set (inorder t))" by (simp add: set_insort_key)
  have gv: "get_value h' leaf = Some x" using version_get_value[OF r(3,5)] .
  have "x \<in> set (inorder t')" using els by simp
  from insert_value_present[OF r(3) b' this] obtain a where a: "(a, x) \<in> set (nodes t')"
    "insert_value h' s' x = Some (h', s', \<lparr>it_node = Some a, it_root = tree s'\<rparr>, False)"
    by auto
  have "a = leaf" using bst_node_unique[OF b' a(1) r(5)] .
  then have again: "insert_value h' s' x =
                      Some (h', s', \<lparr>it_node = Some leaf, it_root = tree s'\<rparr>, False)"
    using a(2) by simp
  show "\<exists>h' s' t' leaf.
                 insert_value h s x =
                   Some (h', s', \<lparr>it_node = Some leaf, it_root = tree s'\<rparr>, True) \<and>
                 version h' s' t' \<and> bst t' \<and>
                 set (inorder t') = insert x (set (inorder t)) \<and>
                 (leaf, x) \<in> set (nodes t') \<and> length h \<le> leaf \<and> get_value h' leaf = Some x \<and>
                 set_size s' = set_size s + 1 \<and> tree s' \<noteq> None \<and>
                 (tree s = None \<longrightarrow> deref h' (length h) = Some new_bNode) \<and>
                 insert_value h' s' x =
                   Some (h', s', \<lparr>it_node = Some leaf, it_root = tree s'\<rparr>, False)"
    using r(1,3,5,6,7,9,11) b' els gv again
    by (intro exI[of _ h'] exI[of _ s'] exI[of _ t'] exI[of _ leaf]) simp
qed

theorem insert_correct_witness:
  "insert_value store3 set3 (8::nat) =
     Some (store3, set3, \<lparr>it_node = Some 7, it_root = Some 6\<rparr>, False) \<and>
   (\<exists>h' s' leaf. insert_value store3 set3 (4::nat) =
        Some (h', s', \<lparr>it_node = Some leaf, it_root = tree s'\<rparr>, True) \<and>
      9 \<le> leaf \<and> get_value h' leaf = Some 4 \<and> set_size s' = 4)"
proof -
  note th = insert_correct[OF version_store3 bst_shape3]
  have "\<exists>a. (a, 8) \<in> set (nodes shape3) \<and>
          insert_value store3 set3 8 =
            Some (store3, set3, \<lparr>it_node = Some a, it_root = tree set3\<rparr>, False)"
    using th[of 8] by (simp add: shape3_def)
  then have 1: "insert_value store3 set3 (8::nat) =
     Some (store3, set3, \<lparr>it_node = Some 7, it_root = Some 6\<rparr>, False)"
    by (auto simp: shape3_def set3_def)
  have "4 \<notin> set (inorder shape3)" by (simp add: shape3_def)
  with th[of 4] obtain h' s' t' leaf where r:
    "insert_value store3 set3 4 = Some (h', s', \<lparr>it_node = Some leaf, it_root = tree s'\<rparr>, True)"
    "length store3 \<le> leaf" "get_value h' leaf = Some 4" "set_size s' = set_size set3 + 1"
    by blast
  then have 2: "\<exists>h' s' leaf. insert_value store3 set3 (4::nat) =
        Some (h', s', \<lparr>it_node = Some leaf, it_root = tree s'\<rparr>, True) \<and>
      9 \<le> leaf \<and> get_value h' leaf = Some 4 \<and> set_size s' = 4"
    by (intro exI[of _ h'] exI[of _ s'] exI[of _ leaf]) (simp add: store3_def set3_def)
  from 1 2 show ?thesis by simp
qed

text \<open>
  C8. Inserting a new value \<open>x\<close> into a non-empty version: in the tree \<open>t'\<close> of the new
  version, every subtree whose root is not on the path from the root to the new leaf is
  a subtree of the old tree \<open>t\<close>, with the same addresses throughout; every node off
  that path is a node of \<open>t\<close> and its cell is unchanged; the nodes on the path are cells
  that the old store did not have, and the path ends at the node holding \<open>x\<close>; the
  store grows by the nodes of the path and one anchor, the path has at most
  \<open>height t + 1\<close> nodes, and the new anchor is a cell the old store did not have.
\<close>

theorem insert_shares_structure:
  assumes "version h s t" and "bst t" and "t \<noteq> Tip" and "x \<notin> set (inorder t)"
  shows "\<exists>h' s' t' leaf.
           insert_value h s x =
             Some (h', s', \<lparr>it_node = Some leaf, it_root = tree s'\<rparr>, True) \<and>
           version h' s' t' \<and> store_le h h' \<and>
           (\<forall>u \<in> set (subtrees t').
              (\<exists>a l v r. u = Nd a l v r \<and> a \<in> set (ins_path x t')) \<or> u \<in> set (subtrees t)) \<and>
           (\<forall>a \<in> set (addrs t').
              a \<notin> set (ins_path x t') \<longrightarrow> a \<in> set (addrs t) \<and> deref h' a = deref h a) \<and>
           (\<forall>a \<in> set (ins_path x t'). length h \<le> a) \<and>
           leaf = last (ins_path x t') \<and> (leaf, x) \<in> set (nodes t') \<and>
           length h' = length h + length (ins_path x t') + 1 \<and>
           length (ins_path x t') \<le> height t + 1 \<and>
           (\<exists>anchor'. tree s' = Some anchor' \<and> length h \<le> anchor' \<and> tree s' \<noteq> tree s)"
proof -
  from insert_value_absent[OF assms(1,2,4)] obtain h' s' t' leaf anchor' where r:
    "insert_value h s x = Some (h', s', \<lparr>it_node = Some leaf, it_root = tree s'\<rparr>, True)"
    "store_le h h'" "version h' s' t'" "path_copy (length h) x t t'"
    "(leaf, x) \<in> set (nodes t')" "length h \<le> leaf"
    "tree s' = Some anchor'" "length h \<le> anchor'"
    "set_size s' = Suc (set_size s)"
    "length h' = length h + (if tree s = None then 1 else 0) + 1 + Suc (length (ins_path x t))"
    "tree s = None \<longrightarrow> deref h' (length h) = Some new_bNode"
    by (elim exE conjE) (rule that)
  from path_copy_path[OF r(4)] have pp:
    "length (ins_path x t') = Suc (length (ins_path x t))"
    "\<forall>a \<in> set (ins_path x t'). length h \<le> a"
    "(last (ins_path x t'), x) \<in> set (nodes t')"
    "\<forall>u \<in> set (subtrees t'). u \<in> set (subtrees t) \<or>
        (\<exists>a l v r. u = Nd a l v r \<and> a \<in> set (ins_path x t'))"
    by simp_all
  have b': "bst t'" using path_copy_bst[OF assms(2,4) r(4)] .
  have leaf: "leaf = last (ins_path x t')" using bst_node_unique[OF b' r(5) pp(3)] .
  have anc: "tree s \<noteq> None" using version_NoneD[OF assms(1)] assms(3) by auto
  from version_rep[OF assms(1)] obtain p where p: "rep h p t" ..
  have off: "\<forall>a \<in> set (addrs t').
              a \<notin> set (ins_path x t') \<longrightarrow> a \<in> set (addrs t) \<and> deref h' a = deref h a"
  proof (intro ballI impI)
    fix a
    assume a: "a \<in> set (addrs t')" "a \<notin> set (ins_path x t')"
    then obtain v where "(a, v) \<in> set (nodes t')" by (auto simp: addrs_def)
    from nodes_subtrees[OF this] obtain l r where "Nd a l v r \<in> set (subtrees t')" by auto
    with pp(4) a(2) have "Nd a l v r \<in> set (subtrees t)" by auto
    then have at: "a \<in> set (addrs t)" using subtrees_nodes nodes_addrs by fastforce
    from rep_addr_bound[OF p at] obtain n where "deref h a = Some n" by (auto simp: deref_def)
    then have "deref h' a = deref h a" using store_le_deref[OF r(2)] by simp
    then show "a \<in> set (addrs t) \<and> deref h' a = deref h a" using at by simp
  qed
  have len: "length h' = length h + length (ins_path x t') + 1" using r(10) anc pp(1) by simp
  have hb: "length (ins_path x t') \<le> height t + 1" using pp(1) ins_path_height[of x t] by simp
  have sub: "\<forall>u \<in> set (subtrees t').
              (\<exists>a l v r. u = Nd a l v r \<and> a \<in> set (ins_path x t')) \<or> u \<in> set (subtrees t)"
    using pp(4) by blast
  obtain anchor where anchor: "tree s = Some anchor" using anc by auto
  from version_SomeD[OF assms(1) anchor] have "anchor < length h"
    by (auto simp: deref_def split: if_splits)
  then have fresh: "\<exists>anchor'. tree s' = Some anchor' \<and> length h \<le> anchor' \<and> tree s' \<noteq> tree s"
    using r(7,8) anchor by auto
  show ?thesis
    using r(1,2,3,5) sub off pp(2) leaf len hb fresh
    by (intro exI[of _ h'] exI[of _ s'] exI[of _ t'] exI[of _ leaf]) simp
qed

theorem insert_shares_structure_witness:
  "\<exists>h' s' t' leaf.
     insert_value store3 set3 (4::nat) =
       Some (h', s', \<lparr>it_node = Some leaf, it_root = tree s'\<rparr>, True) \<and>
     version h' s' t' \<and> leaf = last (ins_path 4 t') \<and>
     length h' = 9 + length (ins_path 4 t') + 1 \<and> length (ins_path 4 t') \<le> 3"
proof -
  have ne: "shape3 \<noteq> Tip" by (simp add: shape3_def)
  have nx: "4 \<notin> set (inorder shape3)" by (simp add: shape3_def)
  from insert_shares_structure[OF version_store3 bst_shape3 ne nx]
  obtain h' s' t' leaf where r:
    "insert_value store3 set3 4 = Some (h', s', \<lparr>it_node = Some leaf, it_root = tree s'\<rparr>, True)"
    "version h' s' t'" "leaf = last (ins_path 4 t')"
    "length h' = length store3 + length (ins_path 4 t') + 1"
    "length (ins_path 4 t') \<le> height shape3 + 1"
    by blast
  then show ?thesis
    by (intro exI[of _ h'] exI[of _ s'] exI[of _ t'] exI[of _ leaf])
       (simp add: store3_def shape3_def)
qed

text \<open>
  C1. Let \<open>A\<close> be a handle whose cells form a search tree, \<open>x\<close> a value that is not an
  element, and \<open>B\<close> a copy of \<open>A\<close>. After \<open>A.insert(x)\<close>, in the new store, \<open>B.find(x)\<close>
  is \<open>B\<close>'s end cursor, the traversal of \<open>B\<close> gives the same elements as before the
  insertion, and the traversal of the new \<open>A\<close> gives the old elements with \<open>x\<close> inserted
  at its place in the order.
\<close>

theorem persistence:
  assumes "version h A t" and "bst t" and "x \<notin> set (inorder t)" and "B = copy_set A"
  shows "\<exists>h' A' it.
           insert_value h A x = Some (h', A', it, True) \<and>
           find_value h' B x = Some (end_it B) \<and>
           traversal h B = Some (inorder t) \<and>
           traversal h' B = Some (inorder t) \<and>
           traversal h' A' = Some (insort x (inorder t))"
proof -
  from insert_value_absent[OF assms(1,2,3)] obtain h' A' t' leaf anchor' where r:
    "insert_value h A x = Some (h', A', \<lparr>it_node = Some leaf, it_root = tree A'\<rparr>, True)"
    "store_le h h'" "version h' A' t'" "path_copy (length h) x t t'"
    by (elim exE conjE) (rule that)
  have vB: "version h B t" using assms(1,4) by simp
  have vB': "version h' B t" using store_le_version[OF r(2) vB] .
  have b': "bst t'" using path_copy_bst[OF assms(2,3) r(4)] .
  have 1: "find_value h' B x = Some (end_it B)"
    using find_value_rep[OF vB' assms(2), of x] assms(3) by simp
  have 2: "traversal h B = Some (inorder t)" using traversal_inorder[OF vB assms(2)] .
  have 3: "traversal h' B = Some (inorder t)" using traversal_inorder[OF vB' assms(2)] .
  have 4: "traversal h' A' = Some (insort x (inorder t))"
    using traversal_inorder[OF r(3) b'] path_copy_inorder[OF assms(2,3) r(4)] by simp
  show ?thesis
    using r(1) 1 2 3 4
    by (intro exI[of _ h'] exI[of _ A'] exI[of _ "\<lparr>it_node = Some leaf, it_root = tree A'\<rparr>"])
       simp
qed

theorem persistence_witness:
  "\<exists>h' A' it.
     insert_value store3 set3 (4::nat) = Some (h', A', it, True) \<and>
     find_value h' (copy_set set3) 4 = Some (end_it (copy_set set3)) \<and>
     traversal store3 (copy_set set3) = Some [3, 5, 8] \<and>
     traversal h' (copy_set set3) = Some [3, 5, 8] \<and>
     traversal h' A' = Some [3, 4, 5, 8]"
proof -
  have nx: "4 \<notin> set (inorder shape3)" by (simp add: shape3_def)
  from persistence[OF version_store3 bst_shape3 nx refl]
  show ?thesis by (simp add: shape3_def)
qed

section \<open>Removal\<close>

lemma erase_impl_rep:
  "rep h p t \<Longrightarrow> bst t \<Longrightarrow> (a, v) \<in> set (nodes t) \<Longrightarrow>
     \<exists>h' q t'. erase_impl h p (Some a) = Some (h', q) \<and>
       store_le h h' \<and> rep h' q t' \<and> erased (length h) (a, v) t t'"
proof (induction t arbitrary: p a v)
  case Tip
  then show ?case by simp
next
  case (Nd c l w r)
  from rep_NdD[OF Nd.prems(1)] obtain n where n: "p = Some c" "deref h c = Some n"
    "val n = Some w" "rep h (left n) l" "rep h (right n) r"
    by auto
  from Nd.prems(2) have b: "bst l" "bst r" "\<forall>y \<in> set (inorder l). y < w"
    "\<forall>y \<in> set (inorder r). w < y"
    by auto
  have gc: "get_value h c = Some w" using n by (simp add: get_value_def)
  have ga: "get_value h a = Some v" using rep_get_value[OF Nd.prems(1,3)] .
  show ?case
  proof (cases "c = a")
    case True
    then have vw: "v = w" using gc ga by simp
    show ?thesis
    proof (cases "r = Tip")
      case rT: True
      then have "right n = None" using n(5) by simp
      then have "erase_impl h p (Some a) = Some (h, left n)"
        using n True by (subst erase_impl.simps) simp
      moreover have "erased (length h) (a, v) (Nd c l w r) l" using True rT by simp
      ultimately show ?thesis using n(4) by (intro exI[of _ h] exI[of _ "left n"] exI[of _ l]) simp
    next
      case rN: False
      then obtain rc where rc: "right n = Some rc" using n(5) by (cases r) auto
      show ?thesis
      proof (cases "l = Tip")
        case lT: True
        then have "left n = None" using n(4) by simp
        then have "erase_impl h p (Some a) = Some (h, right n)"
          using n True rc by (subst erase_impl.simps) simp
        moreover have "erased (length h) (a, v) (Nd c l w r) r" using True rN lT by simp
        ultimately show ?thesis
          using n(5) by (intro exI[of _ h] exI[of _ "right n"] exI[of _ r]) simp
      next
        case lN: False
        then obtain lc where lc: "left n = Some lc" using n(4) by (cases l) auto
        define m where "m = fst (hd (nodes r))"
        define mv where "mv = snd (hd (nodes r))"
        have mn: "min_node h rc = Some m" using min_node_rep[of h rc r] n(5) rc m_def by simp
        have hdr: "hd (nodes r) = (m, mv)" by (simp add: m_def mv_def)
        have mem: "(m, mv) \<in> set (nodes r)" using rN hdr by (metis hd_in_set nodes_Nil)
        have gm: "get_value h m = Some mv" using rep_get_value[OF n(5) mem] .
        from Nd.IH(2)[OF n(5) b(2) mem] obtain h1 q r' where ih:
          "erase_impl h (right n) (Some m) = Some (h1, q)" "store_le h h1" "rep h1 q r'"
          "erased (length h) (m, mv) r r'"
          by (elim exE conjE) (rule that)
        let ?cell = "\<lparr>left = left n, right = q, val = Some mv\<rparr>"
        let ?h2 = "h1 @ [?cell]"
        let ?t' = "Nd (length h1) l mv r'"
        have le2: "store_le h ?h2" using store_le_trans[OF ih(2) store_le_append] .
        have "erase_impl h p (Some a) = Some (?h2, Some (length h1))"
          using n True rc lc mn gm ih(1)
          by (subst erase_impl.simps) (simp add: make_shared_def)
        moreover have "rep ?h2 (Some (length h1)) ?t'"
          using store_le_rep[OF le2 n(4)] store_le_rep[OF store_le_append ih(3)]
          by (simp add: deref_make_shared)
        moreover have "erased (length h) (a, v) (Nd c l w r) ?t'"
          using True rN lN ih(4) hdr store_le_length[OF ih(2)] by simp
        ultimately show ?thesis using le2
          by (intro exI[of _ ?h2] exI[of _ "Some (length h1)"] exI[of _ ?t']) simp
      qed
    qed
  next
    case False
    then have ne: "Some c \<noteq> Some a" by simp
    from Nd.prems(3) False consider (left) "(a, v) \<in> set (nodes l)" | (right) "(a, v) \<in> set (nodes r)"
      by auto
    then show ?thesis
    proof cases
      case right
      then have lt: "w < v" using b(4) nodes_inorder by fastforce
      from Nd.IH(2)[OF n(5) b(2) right] obtain h1 q r' where ih:
        "erase_impl h (right n) (Some a) = Some (h1, q)" "store_le h h1" "rep h1 q r'"
        "erased (length h) (a, v) r r'"
        by (elim exE conjE) (rule that)
      let ?cell = "\<lparr>left = left n, right = q, val = Some w\<rparr>"
      let ?h2 = "h1 @ [?cell]"
      let ?t' = "Nd (length h1) l w r'"
      have le2: "store_le h ?h2" using store_le_trans[OF ih(2) store_le_append] .
      have "erase_impl h p (Some a) = Some (?h2, Some (length h1))"
        using n ne gc ga lt ih(1)
        by (subst erase_impl.simps) (simp add: make_shared_def)
      moreover have "rep ?h2 (Some (length h1)) ?t'"
        using store_le_rep[OF le2 n(4)] store_le_rep[OF store_le_append ih(3)]
        by (simp add: deref_make_shared)
      moreover have "erased (length h) (a, v) (Nd c l w r) ?t'"
        using False lt ih(4) store_le_length[OF ih(2)] by simp
      ultimately show ?thesis using le2
        by (intro exI[of _ ?h2] exI[of _ "Some (length h1)"] exI[of _ ?t']) simp
    next
      case left
      then have "v < w" using b(3) nodes_inorder by fastforce
      then have nlt: "\<not> w < v" by simp
      from Nd.IH(1)[OF n(4) b(1) left] obtain h1 q l' where ih:
        "erase_impl h (left n) (Some a) = Some (h1, q)" "store_le h h1" "rep h1 q l'"
        "erased (length h) (a, v) l l'"
        by (elim exE conjE) (rule that)
      let ?cell = "\<lparr>left = q, right = right n, val = Some w\<rparr>"
      let ?h2 = "h1 @ [?cell]"
      let ?t' = "Nd (length h1) l' w r"
      have le2: "store_le h ?h2" using store_le_trans[OF ih(2) store_le_append] .
      have "erase_impl h p (Some a) = Some (?h2, Some (length h1))"
        using n ne gc ga nlt ih(1)
        by (subst erase_impl.simps) (simp add: make_shared_def)
      moreover have "rep ?h2 (Some (length h1)) ?t'"
        using store_le_rep[OF le2 n(5)] store_le_rep[OF store_le_append ih(3)]
        by (simp add: deref_make_shared)
      moreover have "erased (length h) (a, v) (Nd c l w r) ?t'"
        using False nlt ih(4) store_le_length[OF ih(2)] by simp
      ultimately show ?thesis using le2
        by (intro exI[of _ ?h2] exI[of _ "Some (length h1)"] exI[of _ ?t']) simp
    qed
  qed
qed

subsection \<open>Properties of the tree after a removal\<close>

text \<open>
  In a tree that stands for cells of a store, an address determines its value; \<open>g\<close> is
  that function.
\<close>

lemma erased_inorder:
  "\<forall>b w. (b, w) \<in> set (nodes t) \<longrightarrow> g b = Some w \<Longrightarrow> bst t \<Longrightarrow>
     (a, v) \<in> set (nodes t) \<Longrightarrow> erased n (a, v) t t' \<Longrightarrow>
     inorder t' = remove1 v (inorder t)"
proof (induction t arbitrary: t' a v)
  case Tip
  then show ?case by simp
next
  case (Nd c l w r)
  from Nd.prems(2) have b: "bst l" "bst r" "\<forall>y \<in> set (inorder l). y < w"
    "\<forall>y \<in> set (inorder r). w < y"
    by auto
  have gl: "\<forall>b w. (b, w) \<in> set (nodes l) \<longrightarrow> g b = Some w"
    and gr: "\<forall>b w. (b, w) \<in> set (nodes r) \<longrightarrow> g b = Some w"
    using Nd.prems(1) by auto
  have gc: "g c = Some w" using Nd.prems(1) by simp
  have ga: "g a = Some v" using Nd.prems(1,3) by blast
  show ?case
  proof (cases "c = a")
    case True
    then have vw: "v = w" using gc ga by simp
    have nl: "v \<notin> set (inorder l)" using b(3) vw by auto
    show ?thesis
    proof (cases "r = Tip")
      case rT: True
      then have "t' = l" using Nd.prems(4) True by simp
      then show ?thesis using rT vw nl by (simp add: remove1_append)
    next
      case rN: False
      show ?thesis
      proof (cases "l = Tip")
        case lT: True
        then have "t' = r" using Nd.prems(4) True rN by simp
        then show ?thesis using lT vw by simp
      next
        case lN: False
        from rN obtain m mv rest where hd: "nodes r = (m, mv) # rest"
          by (cases "nodes r") (auto simp: nodes_Nil)
        from Nd.prems(4) True rN lN hd obtain b' r' where t': "t' = Nd b' l mv r'"
          "erased n (m, mv) r r'"
          by (cases t') auto
        have "(m, mv) \<in> set (nodes r)" using hd by simp
        from Nd.IH(2)[OF gr b(2) this t'(2)] have "inorder r' = remove1 mv (inorder r)" .
        moreover have "inorder r = mv # map snd rest" using hd by (simp add: inorder_def)
        ultimately have "mv # inorder r' = inorder r" by simp
        then show ?thesis using t'(1) vw nl by (simp add: remove1_append)
      qed
    qed
  next
    case False
    from Nd.prems(3) False consider (left) "(a, v) \<in> set (nodes l)" | (right) "(a, v) \<in> set (nodes r)"
      by auto
    then show ?thesis
    proof cases
      case right
      then have lt: "w < v" using b(4) nodes_inorder by fastforce
      from Nd.prems(4) False lt obtain b' r' where t': "t' = Nd b' l w r'" "erased n (a, v) r r'"
        by (cases t') auto
      have "v \<notin> set (inorder l)" using b(3) lt by auto
      moreover have "v \<noteq> w" using lt by simp
      ultimately show ?thesis using t'(1) Nd.IH(2)[OF gr b(2) right t'(2)]
        by (simp add: remove1_append)
    next
      case left
      then have gt: "v < w" using b(3) nodes_inorder by fastforce
      then have nlt: "\<not> w < v" by simp
      from Nd.prems(4) False nlt obtain b' l' where t': "t' = Nd b' l' w r" "erased n (a, v) l l'"
        by (cases t') auto
      have "v \<in> set (inorder l)" using left nodes_inorder by fastforce
      then show ?thesis using t'(1) Nd.IH(1)[OF gl b(1) left t'(2)]
        by (simp add: remove1_append)
    qed
  qed
qed

lemma erased_bst:
  "\<forall>b w. (b, w) \<in> set (nodes t) \<longrightarrow> g b = Some w \<Longrightarrow> bst t \<Longrightarrow>
     (a, v) \<in> set (nodes t) \<Longrightarrow> erased n (a, v) t t' \<Longrightarrow> bst t'"
proof (induction t arbitrary: t' a v)
  case Tip
  then show ?case by simp
next
  case (Nd c l w r)
  from Nd.prems(2) have b: "bst l" "bst r" "\<forall>y \<in> set (inorder l). y < w"
    "\<forall>y \<in> set (inorder r). w < y"
    by auto
  have gl: "\<forall>b w. (b, w) \<in> set (nodes l) \<longrightarrow> g b = Some w"
    and gr: "\<forall>b w. (b, w) \<in> set (nodes r) \<longrightarrow> g b = Some w"
    using Nd.prems(1) by auto
  have gc: "g c = Some w" using Nd.prems(1) by simp
  have ga: "g a = Some v" using Nd.prems(1,3) by blast
  show ?case
  proof (cases "c = a")
    case True
    then have vw: "v = w" using gc ga by simp
    show ?thesis
    proof (cases "r = Tip")
      case rT: True
      then have "t' = l" using Nd.prems(4) True by simp
      then show ?thesis using b(1) by simp
    next
      case rN: False
      show ?thesis
      proof (cases "l = Tip")
        case lT: True
        then have "t' = r" using Nd.prems(4) True rN by simp
        then show ?thesis using b(2) by simp
      next
        case lN: False
        from rN obtain m mv rest where hd: "nodes r = (m, mv) # rest"
          by (cases "nodes r") (auto simp: nodes_Nil)
        from Nd.prems(4) True rN lN hd obtain b' r' where t': "t' = Nd b' l mv r'"
          "erased n (m, mv) r r'"
          by (cases t') auto
        have mem: "(m, mv) \<in> set (nodes r)" using hd by simp
        have io: "inorder r' = remove1 mv (inorder r)"
          using erased_inorder[OF gr b(2) mem t'(2)] .
        have ir: "inorder r = mv # map snd rest" using hd by (simp add: inorder_def)
        then have tl: "inorder r' = map snd rest" using io by simp
        have "sorted_wrt (<) (mv # map snd rest)" using bst_sorted[OF b(2)] ir by simp
        then have above: "\<forall>y \<in> set (inorder r'). mv < y" using tl by simp
        have "w < mv" using b(4) ir by simp
        then have "\<forall>y \<in> set (inorder l). y < mv" using b(3) by auto
        then show ?thesis using t'(1) above b(1) Nd.IH(2)[OF gr b(2) mem t'(2)] by simp
      qed
    qed
  next
    case False
    from Nd.prems(3) False consider (left) "(a, v) \<in> set (nodes l)" | (right) "(a, v) \<in> set (nodes r)"
      by auto
    then show ?thesis
    proof cases
      case right
      then have lt: "w < v" using b(4) nodes_inorder by fastforce
      from Nd.prems(4) False lt obtain b' r' where t': "t' = Nd b' l w r'" "erased n (a, v) r r'"
        by (cases t') auto
      have "inorder r' = remove1 v (inorder r)" using erased_inorder[OF gr b(2) right t'(2)] .
      then have "set (inorder r') \<subseteq> set (inorder r)" by (simp add: set_remove1_subset)
      then show ?thesis using t'(1) b Nd.IH(2)[OF gr b(2) right t'(2)] by auto
    next
      case left
      then have gt: "v < w" using b(3) nodes_inorder by fastforce
      then have nlt: "\<not> w < v" by simp
      from Nd.prems(4) False nlt obtain b' l' where t': "t' = Nd b' l' w r" "erased n (a, v) l l'"
        by (cases t') auto
      have "inorder l' = remove1 v (inorder l)" using erased_inorder[OF gl b(1) left t'(2)] .
      then have "set (inorder l') \<subseteq> set (inorder l)" by (simp add: set_remove1_subset)
      then show ?thesis using t'(1) b Nd.IH(1)[OF gl b(1) left t'(2)] by auto
    qed
  qed
qed

lemma erased_addrs:
  "erased n av t t' \<Longrightarrow> a \<in> set (addrs t') \<Longrightarrow> a \<in> set (addrs t) \<or> n \<le> a"
proof (induction t arbitrary: t' av)
  case Tip
  then show ?case by simp
next
  case (Nd c l w r)
  show ?case
  proof (cases "c = fst av")
    case True
    show ?thesis
    proof (cases "r = Tip \<or> l = Tip")
      case True
      then have "t' = l \<or> t' = r" using Nd.prems(1) \<open>c = fst av\<close> by (auto split: if_splits)
      then show ?thesis using Nd.prems(2) by auto
    next
      case False
      then obtain b' r' where t': "t' = Nd b' l (snd (hd (nodes r))) r'" "n \<le> b'"
        "erased n (hd (nodes r)) r r'"
        using Nd.prems(1) True by (cases t') auto
      then show ?thesis using Nd.prems(2) Nd.IH(2)[OF t'(3)] by auto
    qed
  next
    case False
    then obtain b' l' r' where t': "t' = Nd b' l' w r'" "n \<le> b'"
      "if w < snd av then l' = l \<and> erased n av r r' else r' = r \<and> erased n av l l'"
      using Nd.prems(1) by (cases t') auto
    show ?thesis
    proof (cases "w < snd av")
      case True
      then show ?thesis using t' Nd.prems(2) Nd.IH(2)[of av r'] by auto
    next
      case False
      then show ?thesis using t' Nd.prems(2) Nd.IH(1)[of av l'] by auto
    qed
  qed
qed

lemma erased_both_children:
  "\<forall>b w. (b, w) \<in> set (nodes t) \<longrightarrow> g b = Some w \<Longrightarrow> bst t \<Longrightarrow>
     Nd a l v r \<in> set (subtrees t) \<Longrightarrow> l \<noteq> Tip \<Longrightarrow> r \<noteq> Tip \<Longrightarrow> erased n (a, v) t t' \<Longrightarrow>
     \<exists>b r'. Nd b l (hd (inorder r)) r' \<in> set (subtrees t') \<and> n \<le> b \<and>
            inorder r' = tl (inorder r)"
proof (induction t arbitrary: t')
  case Tip
  then show ?case by simp
next
  case (Nd c cl w cr)
  from Nd.prems(2) have b: "bst cl" "bst cr" "\<forall>y \<in> set (inorder cl). y < w"
    "\<forall>y \<in> set (inorder cr). w < y"
    by auto
  have gl: "\<forall>b w. (b, w) \<in> set (nodes cl) \<longrightarrow> g b = Some w"
    and gr: "\<forall>b w. (b, w) \<in> set (nodes cr) \<longrightarrow> g b = Some w"
    using Nd.prems(1) by auto
  have gc: "g c = Some w" using Nd.prems(1) by simp
  have av: "(a, v) \<in> set (nodes (Nd c cl w cr))" using subtrees_nodes[OF Nd.prems(3)] .
  then have ga: "g a = Some v" using Nd.prems(1) by blast
  from Nd.prems(3) consider (here) "c = a" "cl = l" "w = v" "cr = r"
    | (left) "Nd a l v r \<in> set (subtrees cl)"
    | (right) "Nd a l v r \<in> set (subtrees cr)"
    by auto
  then show ?case
  proof cases
    case here
    from Nd.prems(5) obtain m mv rest where hd: "nodes r = (m, mv) # rest"
      by (cases "nodes r") (auto simp: nodes_Nil)
    from Nd.prems(6) here Nd.prems(4,5) hd obtain b' r' where t': "t' = Nd b' l mv r'"
      "n \<le> b'" "erased n (m, mv) r r'"
      by (cases t') auto
    have mem: "(m, mv) \<in> set (nodes r)" using hd by simp
    have "inorder r' = remove1 mv (inorder r)"
      using erased_inorder[OF gr b(2)] mem t'(3) here by simp
    moreover have ir: "inorder r = mv # map snd rest" using hd by (simp add: inorder_def)
    ultimately have "inorder r' = tl (inorder r)" by simp
    then show ?thesis using t'(1,2) ir by auto
  next
    case left
    then have gt: "v < w" using subtrees_inorder b(3) by fastforce
    then have ne: "c \<noteq> a" using gc ga by auto
    from Nd.prems(6) ne gt obtain b' l' where t': "t' = Nd b' l' w cr" "erased n (a, v) cl l'"
      by (cases t') (auto simp: less_not_sym)
    from Nd.IH(1)[OF gl b(1) left Nd.prems(4,5) t'(2)] show ?thesis using t'(1) by auto
  next
    case right
    then have lt: "w < v" using subtrees_inorder b(4) by fastforce
    then have ne: "c \<noteq> a" using gc ga by auto
    from Nd.prems(6) ne lt obtain b' r' where t': "t' = Nd b' cl w r'" "erased n (a, v) cr r'"
      by (cases t') auto
    from Nd.IH(2)[OF gr b(2) right Nd.prems(4,5) t'(2)] show ?thesis using t'(1) by auto
  qed
qed

subsection \<open>The whole operation\<close>

lemma erase_empty: "version h s Tip \<Longrightarrow> erase h s it = Some (h, s)"
proof (cases "tree s")
  case None
  then show ?thesis by (simp add: erase_def)
next
  case (Some anchor)
  assume "version h s Tip"
  from version_SomeD[OF this Some] obtain an where "deref h anchor = Some an" "left an = None"
    by auto
  then show ?thesis using Some by (simp add: erase_def)
qed

lemma erased_mono: "erased n av t t' \<Longrightarrow> m \<le> n \<Longrightarrow> erased m av t t'"
proof (induction t arbitrary: t' av)
  case Tip
  then show ?case by simp
next
  case (Nd c l w r)
  show ?case
  proof (cases "c = fst av")
    case True
    then show ?thesis using Nd.prems Nd.IH(2)[of "hd (nodes r)"]
      by (cases t') (auto split: if_splits)
  next
    case False
    then show ?thesis using Nd.prems Nd.IH(1)[of av] Nd.IH(2)[of av]
      by (cases t') (auto split: if_splits)
  qed
qed

lemma erase_node:
  assumes "version h s t" "bst t" "(a, v) \<in> set (nodes t)" "it_node it = Some a"
  shows "\<exists>h' s' t' anchor'. erase h s it = Some (h', s') \<and> store_le h h' \<and>
           version h' s' t' \<and> erased (length h) (a, v) t t' \<and>
           tree s' = Some anchor' \<and> set_size s' = set_size s - 1"
proof -
  from assms(3) have ne: "t \<noteq> Tip" by auto
  then obtain anchor where anchor: "tree s = Some anchor"
    using version_NoneD[OF assms(1)] by (cases "tree s") auto
  from version_SomeD[OF assms(1) anchor] obtain an where an: "deref h anchor = Some an"
    "rep h (left an) t"
    by auto
  from ne an(2) obtain lc where la: "left an = Some lc" by (cases t) auto
  let ?h1 = "h @ [new_bNode]"
  let ?tmp = "length h"
  have rep1: "rep ?h1 (left an) t" using store_le_rep[OF store_le_append an(2)] .
  from erase_impl_rep[OF rep1 assms(2,3)] obtain h2 q t' where ei:
    "erase_impl ?h1 (left an) (Some a) = Some (h2, q)" "store_le ?h1 h2" "rep h2 q t'"
    "erased (length ?h1) (a, v) t t'"
    by (elim exE conjE) (rule that)
  have len2: "?tmp < length h2" using store_le_length[OF ei(2)] by simp
  have cell: "h2 ! ?tmp = new_bNode" using store_le_nth[OF ei(2), of ?tmp] by simp
  let ?h3 = "h2[?tmp := (h2 ! ?tmp)\<lparr>left := q\<rparr>]"
  have sl: "set_left h2 ?tmp q = Some ?h3" using len2 by (simp add: set_left_def)
  let ?s' = "\<lparr>tree = Some ?tmp, set_size = set_size s - 1\<rparr>"
  have res: "erase h s it = Some (?h3, ?s')"
    using anchor an(1) la assms(4) ei(1) sl by (simp add: erase_def make_shared_def)
  have le: "store_le h ?h3"
    using store_le_set_left[OF store_le_trans[OF store_le_append ei(2)] _ sl] by simp
  have notin: "?tmp \<notin> set (addrs t')"
  proof
    assume "?tmp \<in> set (addrs t')"
    from erased_addrs[OF ei(4) this] have "?tmp \<in> set (addrs t)" by simp
    from rep_addr_bound[OF an(2) this] show False by simp
  qed
  have rep3: "rep ?h3 q t'" using rep_update_other[OF ei(3) notin] .
  have "deref ?h3 ?tmp = Some (new_bNode\<lparr>left := q\<rparr>)"
    using len2 cell by (simp add: deref_def)
  then have ver: "version ?h3 ?s' t'" using rep3 by (simp add: version_def new_bNode_def)
  have er: "erased (length h) (a, v) t t'"
    using erased_mono[OF ei(4), of "length h"] by simp
  show ?thesis
    using res le ver er
    by (intro exI[of _ ?h3] exI[of _ ?s'] exI[of _ t'] exI[of _ ?tmp]) simp
qed

text \<open>
  C3. On a handle whose cells form a search tree and whose counter is the number of
  elements: \<open>erase\<close> on an empty handle returns the store and the handle as they are.
  For a cursor at a node \<open>a\<close> of the tree that holds \<open>v\<close>, \<open>erase\<close> returns a handle with
  a search tree whose elements are the old ones without \<open>v\<close>, in the same order, and a
  counter that is one less. When the node has two children \<open>l\<close> and \<open>r\<close>, the new tree
  has a node, in a cell the old store did not have, that holds the least value of \<open>r\<close>
  over the subtree \<open>l\<close> itself (the same addresses) and a right subtree whose elements
  are those of \<open>r\<close> without that least value.
\<close>

theorem erase_correct:
  assumes "version h s t" and "bst t" and "set_size s = length (inorder t)"
  shows "(empty s \<longrightarrow> erase h s it = Some (h, s)) \<and>
         (\<forall>a v. it_node it = Some a \<and> (a, v) \<in> set (nodes t) \<longrightarrow>
            (\<exists>h' s' t'. erase h s it = Some (h', s') \<and> version h' s' t' \<and> bst t' \<and>
               inorder t' = remove1 v (inorder t) \<and>
               set (inorder t') = set (inorder t) - {v} \<and>
               set_size s' + 1 = set_size s \<and> set_size s' = length (inorder t') \<and>
               (\<forall>l r. Nd a l v r \<in> set (subtrees t) \<and> l \<noteq> Tip \<and> r \<noteq> Tip \<longrightarrow>
                  (\<exists>b r'. Nd b l (hd (inorder r)) r' \<in> set (subtrees t') \<and> length h \<le> b \<and>
                     hd (inorder r) \<in> set (inorder r) \<and>
                     (\<forall>y \<in> set (inorder r). hd (inorder r) \<le> y) \<and>
                     inorder r' = tl (inorder r)))))"
proof (intro conjI allI impI)
  assume "empty s"
  then have "t = Tip" using assms(3) by (simp add: empty_def inorder_def nodes_Nil)
  then show "erase h s it = Some (h, s)" using erase_empty assms(1) by blast
next
  fix a v
  assume av: "it_node it = Some a \<and> (a, v) \<in> set (nodes t)"
  then have mem: "(a, v) \<in> set (nodes t)" and itn: "it_node it = Some a" by simp_all
  from erase_node[OF assms(1,2) mem itn] obtain h' s' t' anchor' where r:
    "erase h s it = Some (h', s')" "store_le h h'" "version h' s' t'"
    "erased (length h) (a, v) t t'" "tree s' = Some anchor'" "set_size s' = set_size s - 1"
    by (elim exE conjE) (rule that)
  have g: "\<forall>b w. (b, w) \<in> set (nodes t) \<longrightarrow> get_value h b = Some w"
    using version_get_value[OF assms(1)] by blast
  have io: "inorder t' = remove1 v (inorder t)" using erased_inorder[OF g assms(2) mem r(4)] .
  have b': "bst t'" using erased_bst[OF g assms(2) mem r(4)] .
  have vin: "v \<in> set (inorder t)" using nodes_inorder[OF mem] .
  have els: "set (inorder t') = set (inorder t) - {v}"
    using io bst_distinct[OF assms(2)] by simp
  have len: "length (inorder t') + 1 = length (inorder t)"
    using io vin by (simp add: length_remove1) (metis One_nat_def Suc_pred length_pos_if_in_set)
  have sz: "set_size s' + 1 = set_size s" "set_size s' = length (inorder t')"
    using r(6) assms(3) len by simp_all
  have both: "\<forall>l r. Nd a l v r \<in> set (subtrees t) \<and> l \<noteq> Tip \<and> r \<noteq> Tip \<longrightarrow>
                  (\<exists>b r'. Nd b l (hd (inorder r)) r' \<in> set (subtrees t') \<and> length h \<le> b \<and>
                     hd (inorder r) \<in> set (inorder r) \<and>
                     (\<forall>y \<in> set (inorder r). hd (inorder r) \<le> y) \<and>
                     inorder r' = tl (inorder r))"
  proof (intro allI impI)
    fix l r
    assume sub: "Nd a l v r \<in> set (subtrees t) \<and> l \<noteq> Tip \<and> r \<noteq> Tip"
    then have s1: "Nd a l v r \<in> set (subtrees t)" and lN: "l \<noteq> Tip" and rN: "r \<noteq> Tip"
      by simp_all
    from erased_both_children[OF g assms(2) s1 lN rN r(4)] obtain b r' where br:
      "Nd b l (hd (inorder r)) r' \<in> set (subtrees t')" "length h \<le> b"
      "inorder r' = tl (inorder r)"
      by blast
    have br2: "bst r" using bst_subtree[OF assms(2) s1] by simp
    have hdio: "hd (inorder r) = snd (hd (nodes r))"
      using rN by (simp add: inorder_def hd_map nodes_Nil)
    have "inorder r \<noteq> []" using rN by (simp add: inorder_def nodes_Nil)
    then have "hd (inorder r) \<in> set (inorder r)" by (rule hd_in_set)
    moreover have "\<forall>y \<in> set (inorder r). hd (inorder r) \<le> y"
      using bst_hd_least(2)[OF br2 rN] hdio by simp
    ultimately show "\<exists>b r'. Nd b l (hd (inorder r)) r' \<in> set (subtrees t') \<and> length h \<le> b \<and>
                     hd (inorder r) \<in> set (inorder r) \<and>
                     (\<forall>y \<in> set (inorder r). hd (inorder r) \<le> y) \<and>
                     inorder r' = tl (inorder r)"
      using br by blast
  qed
  show "\<exists>h' s' t'. erase h s it = Some (h', s') \<and> version h' s' t' \<and> bst t' \<and>
               inorder t' = remove1 v (inorder t) \<and>
               set (inorder t') = set (inorder t) - {v} \<and>
               set_size s' + 1 = set_size s \<and> set_size s' = length (inorder t') \<and>
               (\<forall>l r. Nd a l v r \<in> set (subtrees t) \<and> l \<noteq> Tip \<and> r \<noteq> Tip \<longrightarrow>
                  (\<exists>b r'. Nd b l (hd (inorder r)) r' \<in> set (subtrees t') \<and> length h \<le> b \<and>
                     hd (inorder r) \<in> set (inorder r) \<and>
                     (\<forall>y \<in> set (inorder r). hd (inorder r) \<le> y) \<and>
                     inorder r' = tl (inorder r)))"
    using r(1,3) b' io els sz both
    by (intro exI[of _ h'] exI[of _ s'] exI[of _ t']) simp
qed

theorem erase_correct_witness:
  "erase ([] :: nat store) new_set \<lparr>it_node = None, it_root = None\<rparr> = Some ([], new_set) \<and>
   (\<exists>h' s' t'. erase store3 set3 \<lparr>it_node = Some 8, it_root = Some 6\<rparr> = Some (h', s') \<and>
      version h' s' t' \<and> inorder t' = [3, 8] \<and> set_size s' = 2 \<and>
      (\<exists>b r'. Nd b (Nd 4 Tip 3 Tip) 8 r' \<in> set (subtrees t') \<and> 9 \<le> b \<and> inorder r' = []))"
proof -
  have v0: "version ([] :: nat store) new_set Tip" by (simp add: version_def new_set_def)
  have e0: "empty new_set" by (simp add: empty_def new_set_def)
  have 1: "erase ([] :: nat store) new_set \<lparr>it_node = None, it_root = None\<rparr> = Some ([], new_set)"
    using erase_correct[OF v0, of "\<lparr>it_node = None, it_root = None\<rparr>"] e0
    by (simp add: new_set_def)
  have sz: "set_size set3 = length (inorder shape3)" by (simp add: set3_def shape3_def)
  have pre: "it_node \<lparr>it_node = Some 8, it_root = Some 6\<rparr> = Some 8 \<and> (8, 5) \<in> set (nodes shape3)"
    by (simp add: shape3_def)
  have sub: "Nd 8 (Nd 4 Tip 3 Tip) 5 (Nd 7 Tip 8 Tip) \<in> set (subtrees shape3) \<and>
             Nd 4 Tip 3 Tip \<noteq> Tip \<and> Nd 7 Tip 8 Tip \<noteq> (Tip :: nat shape)"
    by (simp add: shape3_def)
  from erase_correct[OF version_store3 bst_shape3 sz, of "\<lparr>it_node = Some 8, it_root = Some 6\<rparr>"]
    pre
  obtain h' s' t' where r:
    "erase store3 set3 \<lparr>it_node = Some 8, it_root = Some 6\<rparr> = Some (h', s')"
    "version h' s' t'" "inorder t' = remove1 5 (inorder shape3)"
    "set_size s' + 1 = set_size set3"
    "\<forall>l r. Nd 8 l 5 r \<in> set (subtrees shape3) \<and> l \<noteq> Tip \<and> r \<noteq> Tip \<longrightarrow>
       (\<exists>b r'. Nd b l (hd (inorder r)) r' \<in> set (subtrees t') \<and> length store3 \<le> b \<and>
          hd (inorder r) \<in> set (inorder r) \<and>
          (\<forall>y \<in> set (inorder r). hd (inorder r) \<le> y) \<and>
          inorder r' = tl (inorder r))"
    by blast
  from r(5) sub obtain b r' where br:
    "Nd b (Nd 4 Tip 3 Tip) (hd (inorder (Nd 7 Tip 8 Tip))) r' \<in> set (subtrees t')"
    "length store3 \<le> b" "inorder r' = tl (inorder (Nd 7 Tip 8 Tip :: nat shape))"
    by blast
  have 2: "\<exists>h' s' t'. erase store3 set3 \<lparr>it_node = Some 8, it_root = Some 6\<rparr> = Some (h', s') \<and>
      version h' s' t' \<and> inorder t' = [3, 8] \<and> set_size s' = 2 \<and>
      (\<exists>b r'. Nd b (Nd 4 Tip 3 Tip) 8 r' \<in> set (subtrees t') \<and> 9 \<le> b \<and> inorder r' = [])"
  proof -
    have b9: "9 \<le> b" using br(2) by (simp add: store3_def)
    have "Nd b (Nd 4 Tip 3 Tip) 8 r' \<in> set (subtrees t') \<and> 9 \<le> b \<and> inorder r' = []"
      using br(1,3) b9 by simp
    then have "\<exists>b r'. Nd b (Nd 4 Tip 3 Tip) 8 r' \<in> set (subtrees t') \<and> 9 \<le> b \<and> inorder r' = []"
      by blast
    then show ?thesis
      using r(1,2,3,4)
      by (intro exI[of _ h'] exI[of _ s'] exI[of _ t']) (simp add: shape3_def set3_def)
  qed
  from 1 2 show ?thesis by simp
qed

section \<open>Invariants of programs\<close>

subsection \<open>Cursors computed on a handle\<close>

lemma incr_end_none:
  assumes "version h s t"
  shows "incr h (end_it s) = None"
proof (cases "tree s")
  case None
  then show ?thesis by (simp add: incr_def end_it_def)
next
  case (Some anchor)
  from version_SomeD[OF assms Some] obtain an where an: "deref h anchor = Some an"
    "val an = None" "right an = None"
    by auto
  have "get_value h anchor = None" using an by (simp add: get_value_def)
  then have "next_loop h anchor (left an) anchor = None"
    by (subst next_loop.simps) (simp split: option.splits)
  then show ?thesis using Some an by (simp add: incr_def end_it_def next_node_def)
qed

lemma cursor_valid:
  assumes "version h s t" "bst t"
  shows "cursor h s e = Some it \<Longrightarrow>
           it_root it = tree s \<and>
           (it_node it = tree s \<or> (\<exists>a v. it_node it = Some a \<and> (a, v) \<in> set (nodes t)))"
proof (induction e arbitrary: it)
  case (Find x)
  then show ?case
    using find_value_rep[OF assms, of x] by (cases "x \<in> set (inorder t)") (auto simp: end_it_def)
next
  case Begin
  then show ?case
  proof (cases "t = Tip")
    case True
    then show ?thesis using Begin begin_it_rep[OF assms(1)] by (auto simp: end_it_def)
  next
    case False
    then have "hd (nodes t) \<in> set (nodes t)" by (simp add: nodes_Nil)
    moreover obtain a v where av: "hd (nodes t) = (a, v)" by (cases "hd (nodes t)")
    ultimately have "(a, v) \<in> set (nodes t)" by simp
    then show ?thesis using Begin begin_it_rep[OF assms(1)] False av by auto
  qed
next
  case End
  then show ?case by (auto simp: end_it_def)
next
  case (Next e)
  from Next.prems obtain it0 where it0: "cursor h s e = Some it0" "incr h it0 = Some it"
    by (auto split: option.splits)
  from Next.IH[OF it0(1)] have v0: "it_root it0 = tree s"
    "it_node it0 = tree s \<or> (\<exists>a v. it_node it0 = Some a \<and> (a, v) \<in> set (nodes t))"
    by simp_all
  from v0(2) show ?case
  proof
    assume "it_node it0 = tree s"
    then have "it0 = end_it s" using v0(1) by (simp add: end_it_def)
    then show ?thesis using it0(2) incr_end_none[OF assms(1)] by simp
  next
    assume "\<exists>a v. it_node it0 = Some a \<and> (a, v) \<in> set (nodes t)"
    then obtain a v where av: "it_node it0 = Some a" "(a, v) \<in> set (nodes t)" by auto
    then have ne: "t \<noteq> Tip" by auto
    then obtain anchor where anchor: "tree s = Some anchor"
      using version_NoneD[OF assms(1)] by (cases "tree s") auto
    from nodes_subtrees[OF av(2)] obtain l r where sub: "Nd a l v r \<in> set (subtrees t)" by auto
    have nx: "next_node h a (Some anchor) =
                Some (if nodes_above v t = [] then anchor else fst (hd (nodes_above v t)))"
      using next_node_above[OF assms(1) anchor assms(2) sub] .
    then have "it = it0\<lparr>it_node := Some (if nodes_above v t = [] then anchor
                                              else fst (hd (nodes_above v t)))\<rparr>"
      using it0(2) av(1) v0(1) anchor by (simp add: incr_def)
    then have it: "it_root it = tree s"
      "it_node it = Some (if nodes_above v t = [] then anchor else fst (hd (nodes_above v t)))"
      using v0(1) by simp_all
    show ?thesis
    proof (cases "nodes_above v t")
      case Nil
      then show ?thesis using it anchor by simp
    next
      case (Cons c rest)
      obtain b w where c: "c = (b, w)" by (cases c)
      have "c \<in> set (nodes_above v t)" using Cons by simp
      then have "(b, w) \<in> set (nodes t)" using above_subset[of c v t] c by simp
      then show ?thesis using it Cons c by auto
    qed
  qed
next
  case (Prev e)
  from Prev.prems obtain it0 where it0: "cursor h s e = Some it0" "decr h it0 = Some it"
    by (auto split: option.splits)
  from Prev.IH[OF it0(1)] have v0: "it_root it0 = tree s"
    "it_node it0 = tree s \<or> (\<exists>a v. it_node it0 = Some a \<and> (a, v) \<in> set (nodes t))"
    by simp_all
  from v0(2) show ?case
  proof
    assume e0: "it_node it0 = tree s"
    show ?thesis
    proof (cases "tree s")
      case None
      then show ?thesis using it0(2) e0 by (simp add: decr_def)
    next
      case (Some anchor)
      from version_SomeD[OF assms(1) Some] obtain an where an: "deref h anchor = Some an"
        "val an = None" "rep h (left an) t"
        by auto
      show ?thesis
      proof (cases t)
        case Tip
        then have la: "left an = None" using an(3) by simp
        have "prev_loop h anchor None anchor = None" by (subst prev_loop.simps) simp
        then have "decr h it0 = None"
          using e0 v0(1) Some an la by (simp add: decr_def prev_node_def)
        then show ?thesis using it0(2) by simp
      next
        case (Nd c l w r)
        then have la: "left an = Some c" using an(3) by simp
        have "max_node h c = Some (fst (last (nodes t)))"
          using max_node_rep[of h c t] an(3) la by simp
        then have "decr h it0 = Some (it0\<lparr>it_node := Some (fst (last (nodes t)))\<rparr>)"
          using e0 v0(1) Some an la by (simp add: decr_def prev_node_def)
        then have "it = it0\<lparr>it_node := Some (fst (last (nodes t)))\<rparr>" using it0(2) by simp
        then have it: "it_root it = tree s" "it_node it = Some (fst (last (nodes t)))"
          using v0(1) by simp_all
        obtain b w where c: "last (nodes t) = (b, w)" by (cases "last (nodes t)")
        have "last (nodes t) \<in> set (nodes t)" using Nd by simp
        then have "(b, w) \<in> set (nodes t)" using c by simp
        then show ?thesis using it c by auto
      qed
    qed
  next
    assume "\<exists>a v. it_node it0 = Some a \<and> (a, v) \<in> set (nodes t)"
    then obtain a v where av: "it_node it0 = Some a" "(a, v) \<in> set (nodes t)" by auto
    then have ne: "t \<noteq> Tip" by auto
    then obtain anchor where anchor: "tree s = Some anchor"
      using version_NoneD[OF assms(1)] by (cases "tree s") auto
    from nodes_subtrees[OF av(2)] obtain l r where sub: "Nd a l v r \<in> set (subtrees t)" by auto
    have pv: "prev_node h a (Some anchor) =
                Some (if nodes_below v t = [] then anchor else fst (last (nodes_below v t)))"
      using prev_node_below[OF assms(1) anchor assms(2) sub] .
    then have "it = it0\<lparr>it_node := Some (if nodes_below v t = [] then anchor
                                              else fst (last (nodes_below v t)))\<rparr>"
      using it0(2) av(1) v0(1) anchor by (simp add: decr_def)
    then have it: "it_root it = tree s"
      "it_node it = Some (if nodes_below v t = [] then anchor else fst (last (nodes_below v t)))"
      using v0(1) by simp_all
    show ?thesis
    proof (cases "nodes_below v t = []")
      case True
      then show ?thesis using it anchor by simp
    next
      case False
      obtain b w where c: "last (nodes_below v t) = (b, w)" by (cases "last (nodes_below v t)")
      have "last (nodes_below v t) \<in> set (nodes_below v t)" using False by simp
      then have "(b, w) \<in> set (nodes t)"
        using below_subset[of "last (nodes_below v t)" v t] c by simp
      then show ?thesis using it False c by auto
    qed
  qed
qed

lemma erase_end_none:
  assumes "version h s t" "t \<noteq> Tip" "it_node it = tree s"
  shows "erase h s it = None"
proof -
  from assms(2) obtain anchor where anchor: "tree s = Some anchor"
    using version_NoneD[OF assms(1)] by (cases "tree s") auto
  from version_SomeD[OF assms(1) anchor] obtain an where an: "deref h anchor = Some an"
    "val an = None" "rep h (left an) t"
    by auto
  from assms(2) an(3) obtain c where la: "left an = Some c" by (cases t) auto
  have "anchor \<notin> set (addrs t)" using version_anchor_not_node[OF assms(1) anchor] .
  moreover have "c \<in> set (addrs t)" using an(3) la by (cases t) auto
  ultimately have ne: "c \<noteq> anchor" by auto
  let ?h1 = "h @ [new_bNode]"
  have "deref ?h1 anchor = Some an" using store_le_deref[OF store_le_append an(1)] .
  then have "get_value ?h1 anchor = None" using an(2) by (simp add: get_value_def)
  then have "erase_impl ?h1 (Some c) (Some anchor) = None"
    using ne by (subst erase_impl.simps) (simp split: option.splits)
  then show ?thesis
    using anchor an(1) la assms(3) by (simp add: erase_def make_shared_def)
qed

subsection \<open>Every operation keeps every handle consistent\<close>

lemma consistent_store_le:
  "store_le h h' \<Longrightarrow> consistent h s t \<Longrightarrow> consistent h' s t"
  by (simp add: consistent_def store_le_version)

lemma all_consistent_update:
  assumes "all_consistent (h, ss)" "store_le h h'" "consistent h' s' t'"
  shows "all_consistent (h', ss[i := s'])"
proof -
  have "\<exists>t. consistent h' s t" if "s \<in> set (ss[i := s'])" for s
  proof -
    from that set_update_subset_insert[of ss i s'] have "s = s' \<or> s \<in> set ss" by auto
    then show ?thesis
    proof
      assume "s = s'"
      then show ?thesis using assms(3) by blast
    next
      assume "s \<in> set ss"
      then obtain t where "consistent h s t" using assms(1) by (auto simp: all_consistent_def)
      then show ?thesis using consistent_store_le[OF assms(2)] by blast
    qed
  qed
  then show ?thesis by (simp add: all_consistent_def)
qed

lemma insert_value_consistent:
  assumes "consistent h s t" "insert_value h s x = Some (h', s', res)"
  shows "store_le h h' \<and> (\<exists>t'. consistent h' s' t')"
proof (cases "x \<in> set (inorder t)")
  case True
  from assms(1) have v: "version h s t" "bst t" by (simp_all add: consistent_def)
  from insert_value_present[OF v True] assms(2) have "h' = h" "s' = s" by auto
  then show ?thesis using assms(1) by auto
next
  case False
  from assms(1) have v: "version h s t" "bst t" "set_size s = length (inorder t)"
    by (simp_all add: consistent_def)
  from insert_value_absent[OF v(1,2) False] obtain h1 s1 t1 leaf anchor' where r:
    "insert_value h s x = Some (h1, s1, \<lparr>it_node = Some leaf, it_root = tree s1\<rparr>, True)"
    "store_le h h1" "version h1 s1 t1" "path_copy (length h) x t t1"
    "(leaf, x) \<in> set (nodes t1)" "length h \<le> leaf"
    "tree s1 = Some anchor'" "length h \<le> anchor'"
    "set_size s1 = Suc (set_size s)"
    by (elim exE conjE) (rule that)
  from r(1) assms(2) have eq: "h' = h1" "s' = s1" by simp_all
  have "inorder t1 = insort x (inorder t)" using path_copy_inorder[OF v(2) False r(4)] .
  then have "length (inorder t1) = Suc (length (inorder t))" by simp
  then have "consistent h1 s1 t1"
    using r(3,9) v(3) path_copy_bst[OF v(2) False r(4)] by (simp add: consistent_def)
  then show ?thesis using r(2) eq by auto
qed

lemma erase_consistent:
  assumes "consistent h s t" "cursor h s e = Some it" "erase h s it = Some (h', s')"
  shows "store_le h h' \<and> (\<exists>t'. consistent h' s' t')"
proof -
  from assms(1) have v: "version h s t" "bst t" "set_size s = length (inorder t)"
    by (simp_all add: consistent_def)
  show ?thesis
  proof (cases "t = Tip")
    case True
    then have "erase h s it = Some (h, s)" using erase_empty v(1) by blast
    then show ?thesis using assms(1,3) by auto
  next
    case False
    from cursor_valid[OF v(1,2) assms(2)]
    have "it_node it = tree s \<or> (\<exists>a v. it_node it = Some a \<and> (a, v) \<in> set (nodes t))" by simp
    then show ?thesis
    proof
      assume "it_node it = tree s"
      from erase_end_none[OF v(1) False this] assms(3) show ?thesis by simp
    next
      assume "\<exists>a v. it_node it = Some a \<and> (a, v) \<in> set (nodes t)"
      then obtain a x where ax: "it_node it = Some a" "(a, x) \<in> set (nodes t)" by auto
      from erase_node[OF v(1,2) ax(2,1)] obtain h1 s1 t1 anchor' where r:
        "erase h s it = Some (h1, s1)" "store_le h h1" "version h1 s1 t1"
        "erased (length h) (a, x) t t1" "tree s1 = Some anchor'" "set_size s1 = set_size s - 1"
        by (elim exE conjE) (rule that)
      from r(1) assms(3) have eq: "h' = h1" "s' = s1" by simp_all
      have g: "\<forall>b w. (b, w) \<in> set (nodes t) \<longrightarrow> get_value h b = Some w"
        using version_get_value[OF v(1)] by blast
      have io: "inorder t1 = remove1 x (inorder t)" using erased_inorder[OF g v(2) ax(2) r(4)] .
      have "x \<in> set (inorder t)" using nodes_inorder[OF ax(2)] .
      then have "length (inorder t1) = length (inorder t) - 1" using io by (simp add: length_remove1)
      then have "consistent h1 s1 t1"
        using r(3,6) v(3) erased_bst[OF g v(2) ax(2) r(4)] by (simp add: consistent_def)
      then show ?thesis using r(2) eq by auto
    qed
  qed
qed

lemma consistent_new_set: "consistent h new_set Tip"
  by (simp add: consistent_def version_def new_set_def)

lemma exec_consistent:
  assumes "all_consistent st" "exec c st = Some st'"
  shows "all_consistent st'"
proof -
  obtain h ss where st: "st = (h, ss)" by (cases st)
  have all: "\<forall>s \<in> set ss. \<exists>t. consistent h s t" using assms(1) st by (simp add: all_consistent_def)
  have nth: "\<exists>t. consistent h (ss ! i) t" if "i < length ss" for i
    using all that by simp
  show ?thesis
  proof (cases c)
    case Construct
    then have "st' = (h, ss @ [new_set])" using assms(2) st by simp
    then show ?thesis using all consistent_new_set[of h] by (auto simp: all_consistent_def)
  next
    case (Copy i)
    then have i: "i < length ss" "st' = (h, ss @ [ss ! i])"
      using assms(2) st by (auto split: if_splits)
    then show ?thesis using all nth[OF i(1)] by (auto simp: all_consistent_def)
  next
    case (Insert i x)
    then obtain h' s' res where r: "i < length ss"
      "insert_value h (ss ! i) x = Some (h', s', res)" "st' = (h', ss[i := s'])"
      using assms(2) st by (auto split: if_splits option.splits)
    from nth[OF r(1)] obtain t where "consistent h (ss ! i) t" ..
    from insert_value_consistent[OF this r(2)] obtain t' where
      "store_le h h'" "consistent h' s' t'" by auto
    then show ?thesis using all_consistent_update[of h ss h' s' t' i] assms(1) st r(3) by simp
  next
    case (Erase i e)
    then obtain it h' s' where r: "i < length ss" "cursor h (ss ! i) e = Some it"
      "erase h (ss ! i) it = Some (h', s')" "st' = (h', ss[i := s'])"
      using assms(2) st by (auto split: if_splits option.splits)
    from nth[OF r(1)] obtain t where "consistent h (ss ! i) t" ..
    from erase_consistent[OF this r(2,3)] obtain t' where
      "store_le h h'" "consistent h' s' t'" by auto
    then show ?thesis using all_consistent_update[of h ss h' s' t' i] assms(1) st r(4) by simp
  next
    case (Clear i)
    then have r: "i < length ss" "st' = (h, ss[i := clear (ss ! i)])"
      using assms(2) st by (auto split: if_splits)
    have "consistent h (clear (ss ! i)) Tip"
      using consistent_new_set[of h] by (simp add: clear_def new_set_def)
    then show ?thesis
      using all_consistent_update[of h ss h "clear (ss ! i)" Tip i] assms(1) st r(2) by simp
  next
    case (Swap i j)
    then have r: "i < length ss" "j < length ss" "st' = (h, ss[i := ss ! j, j := ss ! i])"
      using assms(2) st by (auto simp: swap_sets_eq split: if_splits)
    from nth[OF r(1)] obtain ti where ti: "consistent h (ss ! i) ti" ..
    from nth[OF r(2)] obtain tj where tj: "consistent h (ss ! j) tj" ..
    have "all_consistent (h, ss[i := ss ! j])"
      using all_consistent_update[of h ss h "ss ! j" tj i] assms(1) st tj by simp
    then have "all_consistent (h, ss[i := ss ! j, j := ss ! i])"
      using all_consistent_update[of h "ss[i := ss ! j]" h "ss ! i" ti j] ti by simp
    then show ?thesis using r(3) by simp
  qed
qed

lemma run_consistent:
  "all_consistent st \<Longrightarrow> run cs st = Some st' \<Longrightarrow> all_consistent st'"
proof (induction cs arbitrary: st)
  case Nil
  then show ?case by simp
next
  case (Cons c cs)
  from Cons.prems(2) obtain st1 where s1: "exec c st = Some st1" "run cs st1 = Some st'"
    by (auto split: option.splits)
  from exec_consistent[OF Cons.prems(1) s1(1)] have "all_consistent st1" .
  from Cons.IH[OF this s1(2)] show ?case .
qed

lemma reachable_consistent:
  assumes "run cs ([], []) = Some (h, ss)" "s \<in> set ss"
  shows "\<exists>t. consistent h s t"
proof -
  have "all_consistent (([], []) :: 'a state)" by (simp add: all_consistent_def)
  from run_consistent[OF this assms(1)] show ?thesis using assms(2)
    by (simp add: all_consistent_def)
qed

lemma run_program1:
  "run program1 ([], []) =
     Some (store_p1, [\<lparr>tree = Some 6, set_size = 1\<rparr>, \<lparr>tree = Some 7, set_size = 3\<rparr>])"
  unfolding program1_def store_p1_def by code_simp

lemma version_distinct_addrs:
  assumes "version h s t" "bst t"
  shows "distinct (addrs t)"
proof -
  have d: "distinct (map snd (nodes t))" using bst_distinct[OF assms(2)] by (simp add: inorder_def)
  then have dn: "distinct (nodes t)" by (simp add: distinct_map)
  have "inj_on fst (set (nodes t))"
  proof (rule inj_onI)
    fix p q
    assume pq: "p \<in> set (nodes t)" "q \<in> set (nodes t)" "fst p = fst q"
    have "get_value h (fst p) = Some (snd p)" using version_get_value[OF assms(1), of "fst p" "snd p"] pq(1) by simp
    moreover have "get_value h (fst q) = Some (snd q)" using version_get_value[OF assms(1), of "fst q" "snd q"] pq(2) by simp
    ultimately have "snd p = snd q" using pq(3) by simp
    then show "p = q" using pq(3) by (simp add: prod_eq_iff)
  qed
  then show ?thesis using dn by (simp add: addrs_def distinct_map)
qed

text \<open>
  C5. After any program of public operations, started from nothing, that has an
  outcome, every handle has cells that form a tree in which, at every node, the
  elements of the left subtree are less than the node's value and those of the right
  subtree greater; its elements are distinct, and its traversal returns them in
  strictly ascending order.
\<close>

theorem ordering_invariant:
  assumes "run cs ([], []) = Some (h, ss)" and "s \<in> set ss"
  shows "\<exists>t. version h s t \<and> bst t \<and> distinct (inorder t) \<and>
             traversal h s = Some (inorder t) \<and> sorted_wrt (<) (inorder t)"
proof -
  from reachable_consistent[OF assms] obtain t where "consistent h s t" ..
  then have v: "version h s t" "bst t" by (simp_all add: consistent_def)
  show ?thesis
    using v bst_distinct[OF v(2)] traversal_inorder[OF v] bst_sorted[OF v(2)] by blast
qed

theorem ordering_invariant_witness:
  "\<exists>t. version store_p1 \<lparr>tree = Some 7, set_size = 3\<rparr> t \<and> bst t \<and> distinct (inorder t) \<and>
       traversal store_p1 \<lparr>tree = Some 7, set_size = 3\<rparr> = Some (inorder t) \<and>
       sorted_wrt (<) (inorder t)"
  using ordering_invariant[OF run_program1, of "\<lparr>tree = Some 7, set_size = 3\<rparr>"] by simp

text \<open>
  C9. After any program of public operations, started from nothing, that has an
  outcome, the counter of every handle is the number of value-bearing nodes reachable
  from its anchor (their addresses are distinct); the counter is 0 exactly when the
  handle has no anchor or its anchor has no left child; and \<open>empty\<close> holds exactly when
  the tree has no element, which is exactly when the traversal returns nothing.
\<close>

theorem size_consistency:
  assumes "run cs ([], []) = Some (h, ss)" and "s \<in> set ss"
  shows "\<exists>t. version h s t \<and> distinct (addrs t) \<and>
             set_size s = card (set (addrs t)) \<and> set_size s = length (inorder t) \<and>
             (set_size s = 0 \<longleftrightarrow>
                tree s = None \<or> (\<exists>a n. tree s = Some a \<and> deref h a = Some n \<and> left n = None)) \<and>
             (empty s \<longleftrightarrow> inorder t = []) \<and>
             (empty s \<longleftrightarrow> traversal h s = Some [])"
proof -
  from reachable_consistent[OF assms] obtain t where "consistent h s t" ..
  then have v: "version h s t" "bst t" "set_size s = length (inorder t)"
    by (simp_all add: consistent_def)
  have d: "distinct (addrs t)" using version_distinct_addrs[OF v(1,2)] .
  have "length (addrs t) = length (inorder t)" by (simp add: addrs_def inorder_def)
  then have c: "set_size s = card (set (addrs t))" using v(3) distinct_card[OF d] by simp
  have tip: "set_size s = 0 \<longleftrightarrow> t = Tip" using v(3) by (simp add: inorder_def nodes_Nil)
  have z: "t = Tip \<longleftrightarrow>
             tree s = None \<or> (\<exists>a n. tree s = Some a \<and> deref h a = Some n \<and> left n = None)"
  proof (cases "tree s")
    case None
    then show ?thesis using version_NoneD[OF v(1)] by simp
  next
    case (Some a)
    from version_SomeD[OF v(1) Some] obtain n where n: "deref h a = Some n" "rep h (left n) t"
      by auto
    have "t = Tip \<longleftrightarrow> left n = None" using n(2) by (cases t) auto
    then show ?thesis using Some n(1) by simp
  qed
  have e: "empty s \<longleftrightarrow> inorder t = []" using v(3) by (simp add: empty_def)
  have tr: "empty s \<longleftrightarrow> traversal h s = Some []" using e traversal_inorder[OF v(1,2)] by simp
  have z0: "set_size s = 0 \<longleftrightarrow>
             tree s = None \<or> (\<exists>a n. tree s = Some a \<and> deref h a = Some n \<and> left n = None)"
    using tip z by simp
  show ?thesis using v(1,3) d c z0 e tr by (intro exI[of _ t]) simp
qed

theorem size_consistency_witness:
  "\<exists>t. version store_p1 \<lparr>tree = Some 6, set_size = 1\<rparr> t \<and> distinct (addrs t) \<and>
       card (set (addrs t)) = 1 \<and> length (inorder t) = 1 \<and>
       \<not> empty \<lparr>tree = Some 6, set_size = 1\<rparr> \<and> inorder t \<noteq> []"
  using size_consistency[OF run_program1, of "\<lparr>tree = Some 6, set_size = 1\<rparr>"]
  by (auto simp: empty_def)

end
